theory Spec2Isabelle
  imports Complex_Main "HOL-Library.Char_ord" "HOL-Library.List_Lexorder" "HOL-Library.Sublist"
begin


section \<open>Badminton match scheduler: data model\<close>

text \<open>
  A shallow embedding of \<^verbatim>\<open>backend/src/scheduler.ts\<close>. JavaScript numbers that
  hold integers (counters, round indices, scores) are \<open>int\<close>; \<open>avgRest\<close> (a quotient)
  is \<open>rat\<close>, which is exact for the divisors 2 and 4 that occur (a match has two or
  four players). The parameter \<open>courts\<close> is whatever number the caller passes: the
  function and the HTTP handler only check \<open>courts < 1\<close>, so a fraction such as 1.5
  is accepted. It is a \<open>rat\<close> here, compared with the lengths of arrays as the
  source does; the non-finite numbers \<open>Infinity\<close> and \<open>NaN\<close> are outside the model.
  A \<open>Map\<close> is an
  association list in insertion order, a \<open>Set\<close> a duplicate-free list in insertion
  order. The host's \<open>uuidv4()\<close> is a parameter \<open>uuid\<close>: the \<open>k\<close>-th call of a run
  returns \<open>uuid k\<close>, and the number of calls made so far is threaded through.
\<close>

type_synonym Player = string
type_synonym Team = "Player list"

record MatchObj =
  match_id :: string
  teamA :: Team
  teamB :: Team

record Round =
  round_id :: string
  matches :: "MatchObj list"
  resting :: "Player list"
  completed :: bool

record PlayerStats =
  playCount :: int
  restCount :: int
  lastPlayedRound :: int

datatype MatchType = Singles | Doubles

datatype error =
    TooFewAfterDedup nat nat  \<comment> \<open>"After removing d duplicate(s), only n unique players remain"\<close>
  | TooFewPlayers             \<comment> \<open>"At least 5 unique players required"\<close>
  | TooFewCourts              \<comment> \<open>"At least 1 court required"\<close>

subsection \<open>JavaScript helpers\<close>

text \<open>\<^verbatim>\<open>new Set(xs)\<close>, \<^verbatim>\<open>set.add(x)\<close>: insertion order, first occurrence kept.\<close>

fun set_add_all :: "'a list \<Rightarrow> 'a list \<Rightarrow> 'a list" where
  "set_add_all acc [] = acc"
| "set_add_all acc (x # xs) = set_add_all (if x \<in> set acc then acc else acc @ [x]) xs"

definition new_Set :: "'a list \<Rightarrow> 'a list" where
  "new_Set xs = set_add_all [] xs"

text \<open>\<^verbatim>\<open>m.get(k) ?? d\<close>: the default only for a missing key.\<close>

definition get_nullish :: "('k \<times> 'v) list \<Rightarrow> 'k \<Rightarrow> 'v \<Rightarrow> 'v" where
  "get_nullish m k d = (case map_of m k of None \<Rightarrow> d | Some v \<Rightarrow> v)"

text \<open>\<^verbatim>\<open>m.get(k) || d\<close>: the default for a missing key and for the falsy number 0.\<close>

definition get_or :: "('k \<times> int) list \<Rightarrow> 'k \<Rightarrow> int \<Rightarrow> int" where
  "get_or m k d = (case map_of m k of None \<Rightarrow> d | Some v \<Rightarrow> if v = 0 then d else v)"

text \<open>\<^verbatim>\<open>m.set(k, v)\<close>: an existing key keeps its place, a new one goes last.\<close>

fun map_set :: "('k \<times> 'v) list \<Rightarrow> 'k \<Rightarrow> 'v \<Rightarrow> ('k \<times> 'v) list" where
  "map_set [] k v = [(k, v)]"
| "map_set ((k', v') # m) k v = (if k' = k then (k, v) # m else (k', v') # map_set m k v)"

text \<open>
  \<^verbatim>\<open>Math.max(...xs)\<close> and \<^verbatim>\<open>Math.min(...xs)\<close>. On the empty list JavaScript gives
  \<open>-Infinity\<close> and \<open>Infinity\<close>; every match built by \<open>generateAllMatches\<close> has at
  least two players, so that case is not reached and is mapped to 0 here.
\<close>

fun Math_max :: "int list \<Rightarrow> int" where
  "Math_max [] = 0"
| "Math_max (x # xs) = foldl max x xs"

fun Math_min :: "int list \<Rightarrow> int" where
  "Math_min [] = 0"
| "Math_min (x # xs) = foldl min x xs"

text \<open>\<^verbatim>\<open>xs.join(sep)\<close>\<close>

fun join :: "string \<Rightarrow> string list \<Rightarrow> string" where
  "join sep [] = []"
| "join sep [x] = x"
| "join sep (x # y # ys) = x @ sep @ join sep (y # ys)"

text \<open>
  \<^verbatim>\<open>xs.sort(cmp)\<close> is stable: modelled as the stable insertion sort. When \<open>cmp\<close> is
  a total preorder every stable sorting algorithm returns this list, so the model and
  the host agree. That is the case for singles: a match has two players, \<open>avgRest\<close>
  is a multiple of 1/2, the threshold 0.3 of the comparator then only tests
  \<open>restDiff \<noteq> 0\<close>, and the comparator is a lexicographic order. For doubles
  \<open>avgRest\<close> is a multiple of 1/4, two candidates 1/4 apart count as equal at that
  level, and the comparator need not be transitive; ECMAScript then leaves the order
  to the implementation, and the host's merge sort can return another permutation
  than this function. The order of the candidates in a doubles run is therefore a
  property of the model only. The general theorems below use of the sorted list only
  that its elements are those of the input; the runs evaluated below are singles
  runs, or stop before incomparable candidates meet.
\<close>

fun insert_by :: "('a \<Rightarrow> 'a \<Rightarrow> int) \<Rightarrow> 'a \<Rightarrow> 'a list \<Rightarrow> 'a list" where
  "insert_by cmp x [] = [x]"
| "insert_by cmp x (y # ys) = (if cmp x y \<le> 0 then x # y # ys else y # insert_by cmp x ys)"

definition sort_by :: "('a \<Rightarrow> 'a \<Rightarrow> int) \<Rightarrow> 'a list \<Rightarrow> 'a list" where
  "sort_by cmp xs = foldr (insert_by cmp) xs []"

text \<open>The decimal numeral of a template literal \<^verbatim>\<open>`r${n}`\<close>.\<close>

fun digits_fuel :: "nat \<Rightarrow> nat \<Rightarrow> string" where
  "digits_fuel 0 n = []"
| "digits_fuel (Suc f) n =
     (if n < 10 then [char_of (48 + n)] else digits_fuel f (n div 10) @ [char_of (48 + n mod 10)])"

definition string_of_nat :: "nat \<Rightarrow> string" where
  "string_of_nat n = digits_fuel (Suc n) n"

section \<open>Enumeration of teams and matches\<close>

fun pairsFrom :: "Player list \<Rightarrow> Team list" where
  "pairsFrom [] = []"
| "pairsFrom (p # ps) = map (\<lambda>q. [p, q]) ps @ pairsFrom ps"

definition generateTeams :: "Player list \<Rightarrow> MatchType \<Rightarrow> Team list" where
  "generateTeams players mt =
     (case mt of Singles \<Rightarrow> map (\<lambda>p. [p]) players | Doubles \<Rightarrow> pairsFrom players)"

definition teamsOverlap :: "Team \<Rightarrow> Team \<Rightarrow> bool" where
  "teamsOverlap ta tb = list_ex (\<lambda>player. player \<in> set ta) tb"

text \<open>
  The two loops of \<open>generateAllMatches\<close>. The loop state is the pair of the array
  \<open>matches\<close> built so far and the number of \<open>uuidv4()\<close> calls made so far;
  \<open>matchesFrom\<close> is the inner loop for one \<open>teams[i]\<close> over the later teams,
  \<open>matchesLoop\<close> the outer one. The function starts with an empty array: the count
  of calls made before is \<open>n\<close>, the result carries the count after.
\<close>

fun matchesFrom ::
  "(nat \<Rightarrow> string) \<Rightarrow> Team \<Rightarrow> Team list \<Rightarrow> MatchObj list \<times> nat \<Rightarrow> MatchObj list \<times> nat" where
  "matchesFrom uuid t [] mn = mn"
| "matchesFrom uuid t (u # us) (ms, n) =
     matchesFrom uuid t us
       (if \<not> teamsOverlap t u
        then (ms @ [\<lparr>match_id = uuid n, teamA = t, teamB = u\<rparr>], Suc n)
        else (ms, n))"

fun matchesLoop ::
  "(nat \<Rightarrow> string) \<Rightarrow> Team list \<Rightarrow> MatchObj list \<times> nat \<Rightarrow> MatchObj list \<times> nat" where
  "matchesLoop uuid [] mn = mn"
| "matchesLoop uuid (t # ts) mn = matchesLoop uuid ts (matchesFrom uuid t ts mn)"

definition generateAllMatches :: "(nat \<Rightarrow> string) \<Rightarrow> nat \<Rightarrow> Team list \<Rightarrow> MatchObj list \<times> nat" where
  "generateAllMatches uuid n teams = matchesLoop uuid teams ([], n)"

definition getMatchPlayers :: "MatchObj \<Rightarrow> Player list" where
  "getMatchPlayers m = new_Set (teamA m @ teamB m)"

definition getTeamKey :: "Team \<Rightarrow> string" where
  "getTeamKey team = join '','' (sort team)"

definition getMatchTeams :: "MatchObj \<Rightarrow> string \<times> string" where
  "getMatchTeams m = (getTeamKey (teamA m), getTeamKey (teamB m))"

section \<open>Scoring\<close>

definition calculateTeamFreshnessScore ::
  "MatchObj \<Rightarrow> (string \<times> int) list \<Rightarrow> (string \<times> int) list \<Rightarrow> int \<Rightarrow> int" where
  "calculateTeamFreshnessScore m usage lastUsed currentRound =
     (case getMatchTeams m of (teamAKey, teamBKey) \<Rightarrow>
        let teamAUsage = get_or usage teamAKey 0;
            teamBUsage = get_or usage teamBKey 0;
            totalUsage = teamAUsage + teamBUsage;
            teamALastRound = get_or lastUsed teamAKey (- 10);
            teamBLastRound = get_or lastUsed teamBKey (- 10);
            roundsSinceA = currentRound - teamALastRound;
            roundsSinceB = currentRound - teamBLastRound;
            penaltyA = (if roundsSinceA \<le> 1 then 100 else if roundsSinceA \<le> 2 then 50 else 0);
            penaltyB = (if roundsSinceB \<le> 1 then 100 else if roundsSinceB \<le> 2 then 50 else 0);
            recencyPenalty = penaltyA + penaltyB
        in totalUsage * 100 + recencyPenalty + (10 - min roundsSinceA roundsSinceB))"

record MatchCandidate =
  cand_match :: MatchObj
  cand_players :: "Player list"
  avgRest :: rat
  roundsSincePlay :: int
  freshnessScore :: int

text \<open>\<^verbatim>\<open>playerStats.get(p)?.lastPlayedRound ?? d\<close>\<close>

definition lastPlayedOr :: "(Player \<times> PlayerStats) list \<Rightarrow> Player \<Rightarrow> int \<Rightarrow> int" where
  "lastPlayedOr stats p d = (case map_of stats p of None \<Rightarrow> d | Some s \<Rightarrow> lastPlayedRound s)"

text \<open>\<^verbatim>\<open>playerStats.get(p)?.restCount || 0\<close>\<close>

definition restCountOr0 :: "(Player \<times> PlayerStats) list \<Rightarrow> Player \<Rightarrow> int" where
  "restCountOr0 stats p = (case map_of stats p of None \<Rightarrow> 0 | Some s \<Rightarrow> restCount s)"

definition makeCandidate ::
  "(Player \<times> PlayerStats) list \<Rightarrow> (string \<times> int) list \<Rightarrow> (string \<times> int) list \<Rightarrow> int
     \<Rightarrow> MatchObj \<Rightarrow> MatchCandidate" where
  "makeCandidate stats usage lastUsed currentRound m =
     (let players = getMatchPlayers m;
          restSum = foldl (\<lambda>sum p. sum + restCountOr0 stats p) 0 players;
          lastPlayedMax = Math_max (map (\<lambda>p. lastPlayedOr stats p (- 1)) players)
      in \<lparr>cand_match = m,
          cand_players = players,
          avgRest = of_int restSum / of_nat (length players),
          roundsSincePlay = currentRound - lastPlayedMax,
          freshnessScore = calculateTeamFreshnessScore m usage lastUsed currentRound\<rparr>)"

text \<open>The waits \<^verbatim>\<open>currentRound - (playerStats.get(p)?.lastPlayedRound ?? -10)\<close> of a candidate.\<close>

definition waits :: "(Player \<times> PlayerStats) list \<Rightarrow> int \<Rightarrow> Player list \<Rightarrow> int list" where
  "waits stats currentRound ps = map (\<lambda>p. currentRound - lastPlayedOr stats p (- 10)) ps"

definition maxConsecutiveRestsOf :: "nat \<Rightarrow> int" where
  "maxConsecutiveRestsOf numPlayers = (if numPlayers \<le> 7 then 1 else 2)"

text \<open>The comparator handed to \<open>candidates.sort\<close>.\<close>

definition compareCandidates ::
  "(Player \<times> PlayerStats) list \<Rightarrow> int \<Rightarrow> MatchCandidate \<Rightarrow> MatchCandidate \<Rightarrow> int" where
  "compareCandidates stats currentRound a b =
     (let maxRoundsSinceA = Math_max (waits stats currentRound (cand_players a));
          maxRoundsSinceB = Math_max (waits stats currentRound (cand_players b));
          maxConsecutiveRests = maxConsecutiveRestsOf (length stats);
          maxDiff = maxRoundsSinceB - maxRoundsSinceA;
          urgencyThreshold = max 1 (maxConsecutiveRests - 1)
      in
      if (maxRoundsSinceA \<ge> maxConsecutiveRests \<or> maxRoundsSinceB \<ge> maxConsecutiveRests)
         \<and> maxDiff \<noteq> 0
      then maxDiff * 100000
      else if (maxRoundsSinceA \<ge> urgencyThreshold \<or> maxRoundsSinceB \<ge> urgencyThreshold)
         \<and> maxDiff \<noteq> 0
      then maxDiff * 10000
      else
        let sumRoundsSinceA = foldl (+) 0 (waits stats currentRound (cand_players a));
            sumRoundsSinceB = foldl (+) 0 (waits stats currentRound (cand_players b))
        in
        if sumRoundsSinceA \<noteq> sumRoundsSinceB then (sumRoundsSinceB - sumRoundsSinceA) * 100
        else
          let restDiff = avgRest b - avgRest a in
          if \<bar>restDiff\<bar> > 3 / 10 then (if restDiff > 0 then 1 else - 1) * 50
          else
            let minRoundsSinceA = Math_min (waits stats currentRound (cand_players a));
                minRoundsSinceB = Math_min (waits stats currentRound (cand_players b))
            in
            if minRoundsSinceA \<noteq> minRoundsSinceB then (minRoundsSinceB - minRoundsSinceA) * 10
            else freshnessScore a - freshnessScore b)"

section \<open>Round packer\<close>

definition hasConflict :: "Player list \<Rightarrow> Player list \<Rightarrow> bool" where
  "hasConflict usedPlayers ps = list_ex (\<lambda>player. player \<in> set usedPlayers) ps"

text \<open>
  First pass of \<open>selectRoundMatches\<close>: only candidates with a critical player. The
  pair is the loop's state \<open>(selected, usedPlayers)\<close>.
\<close>

fun firstPass ::
  "rat \<Rightarrow> (Player \<times> PlayerStats) list \<Rightarrow> int \<Rightarrow> MatchCandidate list
     \<Rightarrow> MatchObj list \<times> Player list \<Rightarrow> MatchObj list \<times> Player list" where
  "firstPass courts stats currentRound [] su = su"
| "firstPass courts stats currentRound (c # cs) (selected, usedPlayers) =
     (if of_nat (length selected) \<ge> courts then (selected, usedPlayers)
      else
        let maxWait = Math_max (waits stats currentRound (cand_players c));
            hasCriticalPlayer = (maxWait \<ge> maxConsecutiveRestsOf (length stats))
        in
        if \<not> hasCriticalPlayer then firstPass courts stats currentRound cs (selected, usedPlayers)
        else if hasConflict usedPlayers (cand_players c)
        then firstPass courts stats currentRound cs (selected, usedPlayers)
        else firstPass courts stats currentRound cs
               (selected @ [cand_match c], set_add_all usedPlayers (cand_players c)))"

text \<open>Second pass: fill the remaining courts with the best candidates left.\<close>

fun secondPass ::
  "rat \<Rightarrow> MatchCandidate list \<Rightarrow> MatchObj list \<times> Player list \<Rightarrow> MatchObj list \<times> Player list" where
  "secondPass courts [] su = su"
| "secondPass courts (c # cs) (selected, usedPlayers) =
     (if of_nat (length selected) \<ge> courts then (selected, usedPlayers)
      else if cand_match c \<in> set selected then secondPass courts cs (selected, usedPlayers)
      else if hasConflict usedPlayers (cand_players c)
      then secondPass courts cs (selected, usedPlayers)
      else secondPass courts cs
             (selected @ [cand_match c], set_add_all usedPlayers (cand_players c)))"

definition selectRoundMatches ::
  "MatchObj list \<Rightarrow> rat \<Rightarrow> (Player \<times> PlayerStats) list \<Rightarrow> (string \<times> int) list
     \<Rightarrow> (string \<times> int) list \<Rightarrow> int \<Rightarrow> MatchObj list" where
  "selectRoundMatches availableMatches courts stats usage lastUsed currentRound =
     (if availableMatches = [] \<or> courts = 0 then []
      else
        let candidates = sort_by (compareCandidates stats currentRound)
                           (map (makeCandidate stats usage lastUsed currentRound) availableMatches)
        in fst (secondPass courts candidates
                 (firstPass courts stats currentRound candidates ([], []))))"

section \<open>Scheduling driver\<close>

record SchedState =
  remainingMatches :: "MatchObj list"
  playerStats :: "(Player \<times> PlayerStats) list"
  teamUsageCount :: "(string \<times> int) list"
  teamLastUsedRound :: "(string \<times> int) list"
  rounds :: "Round list"
  roundNumber :: int
  uuidCalls :: nat

definition maxIterations :: int where
  "maxIterations = 1000"

text \<open>
  \<^verbatim>\<open>playerStats.get(player)!\<close>: the key is present for every roster player (the map
  is initialised for all of them and never loses a key); the fallback is the initial
  entry.
\<close>

definition statsOf :: "(Player \<times> PlayerStats) list \<Rightarrow> Player \<Rightarrow> PlayerStats" where
  "statsOf stats p =
     get_nullish stats p \<lparr>playCount = 0, restCount = 0, lastPlayedRound = - 1\<rparr>"

definition isUrgent :: "(Player \<times> PlayerStats) list \<Rightarrow> int \<Rightarrow> int \<Rightarrow> Player \<Rightarrow> bool" where
  "isUrgent stats r maxConsecutiveRests player =
     (r - lastPlayedRound (statsOf stats player) \<ge> maxConsecutiveRests)"

definition hasUrgentPlayer :: "Player list \<Rightarrow> (Player \<times> PlayerStats) list \<Rightarrow> int \<Rightarrow> bool" where
  "hasUrgentPlayer players stats r =
     list_ex (isUrgent stats r (maxConsecutiveRestsOf (length players))) players"

definition urgentPlayers :: "Player list \<Rightarrow> (Player \<times> PlayerStats) list \<Rightarrow> int \<Rightarrow> Player list" where
  "urgentPlayers players stats r =
     new_Set (filter (isUrgent stats r (maxConsecutiveRestsOf (length players))) players)"

definition canScheduleUrgent :: "MatchObj list \<Rightarrow> Player list \<Rightarrow> bool" where
  "canScheduleUrgent remaining urgent =
     list_ex (\<lambda>m. list_ex (\<lambda>urgentPlayer. urgentPlayer \<in> set (getMatchPlayers m)) urgent) remaining"

text \<open>The safety check at the top of the loop body: true when the loop breaks there.\<close>

definition safetyStop :: "Player list \<Rightarrow> SchedState \<Rightarrow> bool" where
  "safetyStop players s =
     (hasUrgentPlayer players (playerStats s) (roundNumber s) \<and>
      \<not> canScheduleUrgent (remainingMatches s)
          (urgentPlayers players (playerStats s) (roundNumber s)))"

definition playingOf :: "MatchObj list \<Rightarrow> Player list" where
  "playingOf roundMatches = foldl (\<lambda>playing m. set_add_all playing (getMatchPlayers m)) [] roundMatches"

text \<open>
  The loop over \<open>allPossibleMatches\<close> of the repair block; the pair is
  \<open>(roundMatches, playingPlayers)\<close>.
\<close>

fun repairPass ::
  "rat \<Rightarrow> Player list \<Rightarrow> MatchObj list \<Rightarrow> MatchObj list \<times> Player list
     \<Rightarrow> MatchObj list \<times> Player list" where
  "repairPass courts missing [] rp = rp"
| "repairPass courts missing (m # ms) (roundMatches, playingPlayers) =
     (if of_nat (length roundMatches) \<ge> courts then (roundMatches, playingPlayers)
      else
        let matchPlayers = getMatchPlayers m;
            hasUrgent = list_ex (\<lambda>urgentPlayer. urgentPlayer \<in> set matchPlayers) missing
        in
        if \<not> hasUrgent then repairPass courts missing ms (roundMatches, playingPlayers)
        else if hasConflict playingPlayers matchPlayers
        then repairPass courts missing ms (roundMatches, playingPlayers)
        else repairPass courts missing ms
               (roundMatches @ [m], set_add_all playingPlayers matchPlayers))"

text \<open>
  The block after \<open>selectRoundMatches\<close>: the round's matches after the repair, and the
  count of \<open>uuidv4()\<close> calls after it.
\<close>

definition urgencyRepair ::
  "(nat \<Rightarrow> string) \<Rightarrow> Player list \<Rightarrow> rat \<Rightarrow> MatchType \<Rightarrow> SchedState \<Rightarrow> MatchObj list
     \<Rightarrow> MatchObj list \<times> nat" where
  "urgencyRepair uuid players courts mt s roundMatches =
     (if hasUrgentPlayer players (playerStats s) (roundNumber s) then
        let playingPlayers = playingOf roundMatches;
            urgent = urgentPlayers players (playerStats s) (roundNumber s);
            missingUrgentPlayers = filter (\<lambda>p. p \<notin> set playingPlayers) urgent
        in
        if missingUrgentPlayers \<noteq> [] \<and> of_nat (length roundMatches) < courts then
          (case generateAllMatches uuid (uuidCalls s) (generateTeams players mt) of
             (allPossibleMatches, n') \<Rightarrow>
               (fst (repairPass courts missingUrgentPlayers allPossibleMatches
                      (roundMatches, playingPlayers)), n'))
        else (roundMatches, uuidCalls s)
      else (roundMatches, uuidCalls s))"

definition updatePlayerStats ::
  "Player list \<Rightarrow> Player list \<Rightarrow> int \<Rightarrow> (Player \<times> PlayerStats) list \<Rightarrow> (Player \<times> PlayerStats) list" where
  "updatePlayerStats players playingPlayers r stats =
     foldl (\<lambda>st player.
              let stats1 = statsOf st player in
              map_set st player
                (if player \<in> set playingPlayers
                 then stats1\<lparr>playCount := playCount stats1 + 1, lastPlayedRound := r\<rparr>
                 else stats1\<lparr>restCount := restCount stats1 + 1\<rparr>))
       stats players"

definition updateTeamUsage :: "MatchObj list \<Rightarrow> (string \<times> int) list \<Rightarrow> (string \<times> int) list" where
  "updateTeamUsage roundMatches usage =
     foldl (\<lambda>u m. case getMatchTeams m of (teamAKey, teamBKey) \<Rightarrow>
              let u1 = map_set u teamAKey (get_or u teamAKey 0 + 1)
              in map_set u1 teamBKey (get_or u1 teamBKey 0 + 1))
       usage roundMatches"

definition updateTeamLastUsed ::
  "MatchObj list \<Rightarrow> int \<Rightarrow> (string \<times> int) list \<Rightarrow> (string \<times> int) list" where
  "updateTeamLastUsed roundMatches r lastUsed =
     foldl (\<lambda>l m. case getMatchTeams m of (teamAKey, teamBKey) \<Rightarrow>
              map_set (map_set l teamAKey r) teamBKey r)
       lastUsed roundMatches"

text \<open>The part of the loop body after the emptiness check: the round is committed.\<close>

definition commitRound :: "Player list \<Rightarrow> SchedState \<Rightarrow> MatchObj list \<Rightarrow> nat \<Rightarrow> SchedState" where
  "commitRound players s roundMatches n' =
     (let playingPlayers = playingOf roundMatches;
          restingPlayers = filter (\<lambda>p. p \<notin> set playingPlayers) players;
          scheduledIds = map match_id roundMatches
      in \<lparr>remainingMatches = filter (\<lambda>m. match_id m \<notin> set scheduledIds) (remainingMatches s),
          playerStats = updatePlayerStats players playingPlayers (roundNumber s) (playerStats s),
          teamUsageCount = updateTeamUsage roundMatches (teamUsageCount s),
          teamLastUsedRound = updateTeamLastUsed roundMatches (roundNumber s) (teamLastUsedRound s),
          rounds = rounds s @
            [\<lparr>round_id = ''r'' @ string_of_nat (nat (roundNumber s + 1)),
              matches = roundMatches,
              resting = restingPlayers,
              completed = False\<rparr>],
          roundNumber = roundNumber s + 1,
          uuidCalls = n'\<rparr>)"

text \<open>One pass through the loop body: \<open>None\<close> is a \<open>break\<close>.\<close>

definition scheduleRound ::
  "(nat \<Rightarrow> string) \<Rightarrow> Player list \<Rightarrow> rat \<Rightarrow> MatchType \<Rightarrow> SchedState \<Rightarrow> SchedState option" where
  "scheduleRound uuid players courts mt s =
     (if safetyStop players s then None
      else
        let selected = selectRoundMatches (remainingMatches s) courts (playerStats s)
                         (teamUsageCount s) (teamLastUsedRound s) (roundNumber s)
        in case urgencyRepair uuid players courts mt s selected of
             (roundMatches, n') \<Rightarrow>
               if roundMatches = [] then None
               else Some (commitRound players s roundMatches n'))"

function schedulingLoop ::
  "(nat \<Rightarrow> string) \<Rightarrow> Player list \<Rightarrow> rat \<Rightarrow> MatchType \<Rightarrow> SchedState \<Rightarrow> SchedState" where
  "schedulingLoop uuid players courts mt s =
     (if remainingMatches s \<noteq> [] \<and> roundNumber s < maxIterations
      then (case scheduleRound uuid players courts mt s of
              None \<Rightarrow> s
            | Some s' \<Rightarrow> schedulingLoop uuid players courts mt s')
      else s)"
  by pat_completeness auto
termination
  by (relation "measure (\<lambda>(uuid, players, courts, mt, s). nat (maxIterations - roundNumber s))")
     (auto simp: scheduleRound_def commitRound_def Let_def split: if_splits prod.splits)

declare schedulingLoop.simps [simp del]

definition initialState :: "(nat \<Rightarrow> string) \<Rightarrow> Player list \<Rightarrow> MatchType \<Rightarrow> SchedState" where
  "initialState uuid players mt =
     (let teams = generateTeams players mt in
      case generateAllMatches uuid 0 teams of
        (allMatches, n) \<Rightarrow>
          \<lparr>remainingMatches = allMatches,
           playerStats =
             foldl (\<lambda>st player. map_set st player
                      \<lparr>playCount = 0, restCount = 0, lastPlayedRound = - 1\<rparr>) [] players,
           teamUsageCount = foldl (\<lambda>u team. map_set u (getTeamKey team) 0) [] teams,
           teamLastUsedRound = foldl (\<lambda>l team. map_set l (getTeamKey team) (- 10)) [] teams,
           rounds = [],
           roundNumber = 0,
           uuidCalls = n\<rparr>)"

definition generateSchedule ::
  "(nat \<Rightarrow> string) \<Rightarrow> Player list \<Rightarrow> rat \<Rightarrow> MatchType \<Rightarrow> error + Round list \<times> string option" where
  "generateSchedule uuid inputPlayers courts mt =
     (let uniquePlayers = new_Set inputPlayers in
      if length uniquePlayers < length inputPlayers \<and> length uniquePlayers < 5
      then Inl (TooFewAfterDedup (length inputPlayers - length uniquePlayers) (length uniquePlayers))
      else if length uniquePlayers < 5 then Inl TooFewPlayers
      else if courts < 1 then Inl TooFewCourts
      else
        let players = uniquePlayers;
            warning = (if length players > 16 then Some ''large_n; fallback_to_greedy'' else None)
        in Inr (rounds (schedulingLoop uuid players courts mt (initialState uuid players mt)),
                warning))"

section \<open>Notions for stating and proving the properties\<close>

text \<open>
  \<open>firstPass\<close>, \<open>secondPass\<close> and \<open>repairPass\<close> differ only in the test that skips an
  item; \<open>pack\<close> is their common shape, used for the proofs only.
\<close>

fun pack ::
  "rat \<Rightarrow> (MatchObj list \<Rightarrow> 'c \<Rightarrow> bool) \<Rightarrow> ('c \<Rightarrow> MatchObj) \<Rightarrow> ('c \<Rightarrow> Player list) \<Rightarrow> 'c list
     \<Rightarrow> MatchObj list \<times> Player list \<Rightarrow> MatchObj list \<times> Player list" where
  "pack courts skip mf pf [] su = su"
| "pack courts skip mf pf (c # cs) (selected, usedPlayers) =
     (if of_nat (length selected) \<ge> courts then (selected, usedPlayers)
      else if skip selected c then pack courts skip mf pf cs (selected, usedPlayers)
      else if hasConflict usedPlayers (pf c) then pack courts skip mf pf cs (selected, usedPlayers)
      else pack courts skip mf pf cs (selected @ [mf c], set_add_all usedPlayers (pf c)))"

definition critical :: "(Player \<times> PlayerStats) list \<Rightarrow> int \<Rightarrow> Player list \<Rightarrow> bool" where
  "critical stats r ps = (Math_max (waits stats r ps) \<ge> maxConsecutiveRestsOf (length stats))"

fun disjointMatches :: "MatchObj list \<Rightarrow> bool" where
  "disjointMatches [] = True"
| "disjointMatches (m # ms) =
     (list_all (\<lambda>m'. \<not> hasConflict (getMatchPlayers m) (getMatchPlayers m')) ms
      \<and> disjointMatches ms)"

definition covered :: "MatchObj list \<Rightarrow> Player list \<Rightarrow> bool" where
  "covered sel used = list_all (\<lambda>m. list_all (\<lambda>p. p \<in> set used) (getMatchPlayers m)) sel"

definition candidatesOf ::
  "MatchObj list \<Rightarrow> (Player \<times> PlayerStats) list \<Rightarrow> (string \<times> int) list \<Rightarrow> (string \<times> int) list
     \<Rightarrow> int \<Rightarrow> MatchCandidate list" where
  "candidatesOf avail stats usage lastUsed r =
     sort_by (compareCandidates stats r) (map (makeCandidate stats usage lastUsed r) avail)"

text \<open>
  A supply of pairwise distinct identifiers, for the concrete runs: \<open>n\<close> in base 64, the
  last digit as a character from \<open>0\<close> on, the rest in unary.
\<close>

definition uuid0 :: "nat \<Rightarrow> string" where
  "uuid0 n = replicate (n div 64) CHR ''-'' @ [char_of (48 + n mod 64)]"

text \<open>
  Deduplication as the specification words it: every element is kept at its first
  occurrence, later occurrences are dropped.
\<close>

fun dedupFirst :: "'a list \<Rightarrow> 'a list" where
  "dedupFirst [] = []"
| "dedupFirst (x # xs) = x # dedupFirst (removeAll x xs)"

text \<open>The rounds \<open>generateSchedule\<close> returns for a roster that passed validation.\<close>

definition scheduleOf :: "(nat \<Rightarrow> string) \<Rightarrow> Player list \<Rightarrow> rat \<Rightarrow> MatchType \<Rightarrow> Round list" where
  "scheduleOf uuid players courts mt =
     rounds (schedulingLoop uuid players courts mt (initialState uuid players mt))"

text \<open>The selection of the round packer in a loop state.\<close>

definition selectedOf :: "rat \<Rightarrow> SchedState \<Rightarrow> MatchObj list" where
  "selectedOf courts s =
     selectRoundMatches (remainingMatches s) courts (playerStats s) (teamUsageCount s)
       (teamLastUsedRound s) (roundNumber s)"

subsection \<open>Concrete runs\<close>

text \<open>
  Scenario S1 of the specification (five players, one court, singles), and six players
  on two courts, singles, whose last round holds a match added by the repair block.
\<close>

definition single :: "nat \<Rightarrow> Player \<Rightarrow> Player \<Rightarrow> MatchObj" where
  "single k a b = \<lparr>match_id = uuid0 k, teamA = [a], teamB = [b]\<rparr>"

definition mkRound :: "string \<Rightarrow> MatchObj list \<Rightarrow> Player list \<Rightarrow> Round" where
  "mkRound i ms rest = \<lparr>round_id = i, matches = ms, resting = rest, completed = False\<rparr>"

definition S1_players :: "Player list" where
  "S1_players = [''A'', ''B'', ''C'', ''D'', ''E'']"

definition S1_rounds :: "Round list" where
  "S1_rounds =
     [mkRound ''r1'' [single 0 ''A'' ''B''] [''C'', ''D'', ''E''],
      mkRound ''r2'' [single 7 ''C'' ''D''] [''A'', ''B'', ''E''],
      mkRound ''r3'' [single 3 ''A'' ''E''] [''B'', ''C'', ''D''],
      mkRound ''r4'' [single 4 ''B'' ''C''] [''A'', ''D'', ''E''],
      mkRound ''r5'' [single 9 ''D'' ''E''] [''A'', ''B'', ''C''],
      mkRound ''r6'' [single 1 ''A'' ''C''] [''B'', ''D'', ''E''],
      mkRound ''r7'' [single 5 ''B'' ''D''] [''A'', ''C'', ''E''],
      mkRound ''r8'' [single 8 ''C'' ''E''] [''A'', ''B'', ''D''],
      mkRound ''r9'' [single 2 ''A'' ''D''] [''B'', ''C'', ''E''],
      mkRound ''r10'' [single 6 ''B'' ''E''] [''A'', ''C'', ''D'']]"

definition S6_players :: "Player list" where
  "S6_players = [''A'', ''B'', ''C'', ''D'', ''E'', ''F'']"

definition S6_rounds :: "Round list" where
  "S6_rounds =
     [mkRound ''r1'' [single 0 ''A'' ''B'', single 9 ''C'' ''D''] [''E'', ''F''],
      mkRound ''r2'' [single 14 ''E'' ''F'', single 1 ''A'' ''C''] [''B'', ''D''],
      mkRound ''r3'' [single 6 ''B'' ''D'', single 3 ''A'' ''E''] [''C'', ''F''],
      mkRound ''r4'' [single 11 ''C'' ''F'', single 7 ''B'' ''E''] [''A'', ''D''],
      mkRound ''r5'' [single 2 ''A'' ''D'', single 8 ''B'' ''F''] [''C'', ''E''],
      mkRound ''r6'' [single 10 ''C'' ''E'', single 13 ''D'' ''F''] [''A'', ''B''],
      mkRound ''r7'' [single 4 ''A'' ''F'', single 5 ''B'' ''C''] [''D'', ''E''],
      mkRound ''r8'' [single 12 ''D'' ''E'', single 15 ''A'' ''B''] [''C'', ''F'']]"


text \<open>Eight players on three courts, singles: a roster with \<open>maxConsecutiveRests = 2\<close>.\<close>

definition S8_players :: "Player list" where
  "S8_players = [''A'', ''B'', ''C'', ''D'', ''E'', ''F'', ''G'', ''H'']"

definition S8_rounds :: "Round list" where
  "S8_rounds =
     [mkRound ''r1'' [single 0 ''A'' ''B'', single 13 ''C'' ''D'', single 22 ''E'' ''F''] [''G'', ''H''],
      mkRound ''r2'' [single 27 ''G'' ''H'', single 1 ''A'' ''C'', single 8 ''B'' ''D''] [''E'', ''F''],
      mkRound ''r3'' [single 23 ''E'' ''G'', single 26 ''F'' ''H'', single 2 ''A'' ''D''] [''B'', ''C''],
      mkRound ''r4'' [single 7 ''B'' ''C'', single 24 ''E'' ''H'', single 25 ''F'' ''G''] [''A'', ''D''],
      mkRound ''r5'' [single 3 ''A'' ''E'', single 19 ''D'' ''F'', single 11 ''B'' ''G''] [''C'', ''H''],
      mkRound ''r6'' [single 17 ''C'' ''H'', single 4 ''A'' ''F'', single 9 ''B'' ''E''] [''D'', ''G''],
      mkRound ''r7'' [single 20 ''D'' ''G'', single 6 ''A'' ''H'', single 14 ''C'' ''E''] [''B'', ''F''],
      mkRound ''r8'' [single 10 ''B'' ''F'', single 16 ''C'' ''G'', single 21 ''D'' ''H''] [''A'', ''E''],
      mkRound ''r9'' [single 5 ''A'' ''G'', single 18 ''D'' ''E'', single 12 ''B'' ''H''] [''C'', ''F''],
      mkRound ''r10'' [single 15 ''C'' ''F''] [''A'', ''B'', ''D'', ''E'', ''G'', ''H'']]"


text \<open>
  A loop state of an eight-player run at round index 2 in which C to H are urgent and the
  only match left in the pool is between A and B, who played in the round before.
\<close>

definition gate_players :: "Player list" where
  "gate_players = [''A'', ''B'', ''C'', ''D'', ''E'', ''F'', ''G'', ''H'']"

definition gate_state :: SchedState where
  "gate_state =
     \<lparr>remainingMatches = [single 0 ''A'' ''B''],
      playerStats =
        [(''A'', \<lparr>playCount = 1, restCount = 1, lastPlayedRound = 1\<rparr>),
         (''B'', \<lparr>playCount = 1, restCount = 1, lastPlayedRound = 1\<rparr>),
         (''C'', \<lparr>playCount = 1, restCount = 1, lastPlayedRound = 0\<rparr>),
         (''D'', \<lparr>playCount = 1, restCount = 1, lastPlayedRound = 0\<rparr>),
         (''E'', \<lparr>playCount = 0, restCount = 2, lastPlayedRound = - 1\<rparr>),
         (''F'', \<lparr>playCount = 0, restCount = 2, lastPlayedRound = - 1\<rparr>),
         (''G'', \<lparr>playCount = 0, restCount = 2, lastPlayedRound = - 1\<rparr>),
         (''H'', \<lparr>playCount = 0, restCount = 2, lastPlayedRound = - 1\<rparr>)],
      teamUsageCount = [], teamLastUsedRound = [], rounds = [], roundNumber = 2, uuidCalls = 1\<rparr>"

text \<open>The match ids of a schedule, in order, and the loop invariant about them.\<close>

definition allIds :: "Round list \<Rightarrow> string list" where
  "allIds rs = map match_id (concat (map matches rs))"

definition idsInv :: "(nat \<Rightarrow> string) \<Rightarrow> SchedState \<Rightarrow> bool" where
  "idsInv uuid s \<longleftrightarrow>
     distinct (allIds (rounds s) @ map match_id (remainingMatches s))
     \<and> set (allIds (rounds s) @ map match_id (remainingMatches s)) \<subseteq> uuid ` {..<uuidCalls s}"

text \<open>
  Reading a schedule: who plays in a round, the index of the last round a player played
  in (\<open>-1\<close> if none), how long a player has waited at round index \<open>i\<close>, and the longest
  run of consecutive rests, computed as the repository's tests compute it.
\<close>

definition playsIn :: "Player \<Rightarrow> Round \<Rightarrow> bool" where
  "playsIn p r = (p \<in> set (playingOf (matches r)))"

definition lastPlayed :: "Round list \<Rightarrow> Player \<Rightarrow> int" where
  "lastPlayed rs p = foldl (\<lambda>acc (i, r). if playsIn p r then int i else acc) (- 1) (enumerate 0 rs)"

definition waitAt :: "Round list \<Rightarrow> nat \<Rightarrow> Player \<Rightarrow> int" where
  "waitAt rs i p = int i - lastPlayed (take i rs) p"

definition longestRestRun :: "Player \<Rightarrow> Round list \<Rightarrow> nat" where
  "longestRestRun p rs =
     snd (foldl (\<lambda>(consecutiveRests, maxConsecutiveRests) r.
                   if p \<in> set (resting r)
                   then (consecutiveRests + 1, max maxConsecutiveRests (consecutiveRests + 1))
                   else (0, maxConsecutiveRests))
            (0, 0) rs)"

definition statsInv :: "Player list \<Rightarrow> SchedState \<Rightarrow> bool" where
  "statsInv players s \<longleftrightarrow>
     map fst (playerStats s) = players
     \<and> roundNumber s = int (length (rounds s))
     \<and> (\<forall>p\<in>set players. lastPlayedRound (statsOf (playerStats s) p) = lastPlayed (rounds s) p)
     \<and> (\<forall>m\<in>set (remainingMatches s). getMatchPlayers m \<noteq> [] \<and> set (getMatchPlayers m) \<subseteq> set players)"

text \<open>
  The ordering rule of the specification, in its own words: the statistics are read
  from the same maps, \<open>last_played_round\<close> with its sentinel \<open>-1\<close>, \<open>usage_count\<close> with 0
  and \<open>last_used_round\<close> with its sentinel \<open>-10\<close> for an entry that is not there.
\<close>

definition spec_wait :: "(Player \<times> PlayerStats) list \<Rightarrow> int \<Rightarrow> Player \<Rightarrow> int" where
  "spec_wait stats r p = r - lastPlayedRound (statsOf stats p)"

definition spec_max_wait :: "(Player \<times> PlayerStats) list \<Rightarrow> int \<Rightarrow> MatchObj \<Rightarrow> int" where
  "spec_max_wait stats r m = Math_max (map (spec_wait stats r) (getMatchPlayers m))"

definition spec_sum_wait :: "(Player \<times> PlayerStats) list \<Rightarrow> int \<Rightarrow> MatchObj \<Rightarrow> int" where
  "spec_sum_wait stats r m = sum_list (map (spec_wait stats r) (getMatchPlayers m))"

definition spec_min_wait :: "(Player \<times> PlayerStats) list \<Rightarrow> int \<Rightarrow> MatchObj \<Rightarrow> int" where
  "spec_min_wait stats r m = Math_min (map (spec_wait stats r) (getMatchPlayers m))"

definition spec_avg_rest :: "(Player \<times> PlayerStats) list \<Rightarrow> MatchObj \<Rightarrow> rat" where
  "spec_avg_rest stats m =
     of_int (sum_list (map (\<lambda>p. restCount (statsOf stats p)) (getMatchPlayers m)))
       / of_nat (length (getMatchPlayers m))"

definition spec_recency_penalty :: "int \<Rightarrow> int" where
  "spec_recency_penalty since = (if since \<le> 1 then 100 else if since \<le> 2 then 50 else 0)"

definition spec_freshness ::
  "(string \<times> int) list \<Rightarrow> (string \<times> int) list \<Rightarrow> int \<Rightarrow> MatchObj \<Rightarrow> int" where
  "spec_freshness usage lastUsed r m =
     (let a = getTeamKey (teamA m);
          b = getTeamKey (teamB m);
          usage_ab = get_nullish usage a 0 + get_nullish usage b 0;
          since_a = r - get_nullish lastUsed a (- 10);
          since_b = r - get_nullish lastUsed b (- 10)
      in usage_ab * 100 + (spec_recency_penalty since_a + spec_recency_penalty since_b)
           + (10 - min since_a since_b))"

text \<open>
  The sign of the first comparator that does not tie: \<open>-1\<close> when \<open>a\<close> ranks before \<open>b\<close>,
  \<open>1\<close> when \<open>b\<close> ranks before \<open>a\<close>, \<open>0\<close> when all six tie.
\<close>

definition spec_order ::
  "(Player \<times> PlayerStats) list \<Rightarrow> (string \<times> int) list \<Rightarrow> (string \<times> int) list \<Rightarrow> int
     \<Rightarrow> MatchObj \<Rightarrow> MatchObj \<Rightarrow> int" where
  "spec_order stats usage lastUsed r a b =
     (let T = maxConsecutiveRestsOf (length stats);
          U = max 1 (T - 1);
          max_a = spec_max_wait stats r a;
          max_b = spec_max_wait stats r b
      in
      if (max_a \<ge> T \<or> max_b \<ge> T) \<and> max_a \<noteq> max_b then sgn (max_b - max_a)
      else if (max_a \<ge> U \<or> max_b \<ge> U) \<and> max_a \<noteq> max_b then sgn (max_b - max_a)
      else if spec_sum_wait stats r a \<noteq> spec_sum_wait stats r b
      then sgn (spec_sum_wait stats r b - spec_sum_wait stats r a)
      else if \<bar>spec_avg_rest stats b - spec_avg_rest stats a\<bar> > 3 / 10
      then (if spec_avg_rest stats b > spec_avg_rest stats a then 1 else - 1)
      else if spec_min_wait stats r a \<noteq> spec_min_wait stats r b
      then sgn (spec_min_wait stats r b - spec_min_wait stats r a)
      else sgn (spec_freshness usage lastUsed r a - spec_freshness usage lastUsed r b))"

text \<open>The comparator of the code on two matches of the pool.\<close>

definition codeOrder ::
  "(Player \<times> PlayerStats) list \<Rightarrow> (string \<times> int) list \<Rightarrow> (string \<times> int) list \<Rightarrow> int
     \<Rightarrow> MatchObj \<Rightarrow> MatchObj \<Rightarrow> int" where
  "codeOrder stats usage lastUsed r a b =
     sgn (compareCandidates stats r (makeCandidate stats usage lastUsed r a)
            (makeCandidate stats usage lastUsed r b))"

text \<open>
  How often two players meet in a schedule, and the shape of a round with one singles
  match among five players.
\<close>

definition timesPaired :: "Player \<Rightarrow> Player \<Rightarrow> Round list \<Rightarrow> nat" where
  "timesPaired p q rs =
     length (filter (\<lambda>m. set (getMatchPlayers m) = {p, q}) (concat (map matches rs)))"

definition oneSinglesMatch :: "Round \<Rightarrow> bool" where
  "oneSinglesMatch r =
     (length (matches r) = 1 \<and> length (playingOf (matches r)) = 2 \<and> length (resting r) = 3)"

text \<open>
  The loop invariant of a run on one court with \<open>maxConsecutiveRests = 1\<close>, for the
  proofs only: the rounds emitted so far hold one match each, and these matches together
  with the remaining ones are the matches enumerated at the start.
\<close>

definition poolInv :: "Player list \<Rightarrow> (nat \<Rightarrow> string) \<Rightarrow> MatchObj list \<Rightarrow> SchedState \<Rightarrow> bool" where
  "poolInv players uuid pool s \<longleftrightarrow>
     statsInv players s \<and> idsInv uuid s
     \<and> set (concat (map matches (rounds s))) \<union> set (remainingMatches s) = set pool
     \<and> (\<forall>r\<in>set (rounds s). \<exists>m. matches r = [m]
            \<and> resting r = filter (\<lambda>p. p \<notin> set (getMatchPlayers m)) players)"

text \<open>The matches \<open>generateAllMatches\<close> enumerates for five players, singles.\<close>

definition five_pool :: "(nat \<Rightarrow> string) \<Rightarrow> Player list \<Rightarrow> MatchObj list" where
  "five_pool uuid ps =
     (case ps of [a, b, c, d, e] \<Rightarrow>
        [\<lparr>match_id = uuid 0, teamA = [a], teamB = [b]\<rparr>,
         \<lparr>match_id = uuid 1, teamA = [a], teamB = [c]\<rparr>,
         \<lparr>match_id = uuid 2, teamA = [a], teamB = [d]\<rparr>,
         \<lparr>match_id = uuid 3, teamA = [a], teamB = [e]\<rparr>,
         \<lparr>match_id = uuid 4, teamA = [b], teamB = [c]\<rparr>,
         \<lparr>match_id = uuid 5, teamA = [b], teamB = [d]\<rparr>,
         \<lparr>match_id = uuid 6, teamA = [b], teamB = [e]\<rparr>,
         \<lparr>match_id = uuid 7, teamA = [c], teamB = [d]\<rparr>,
         \<lparr>match_id = uuid 8, teamA = [c], teamB = [e]\<rparr>,
         \<lparr>match_id = uuid 9, teamA = [d], teamB = [e]\<rparr>]
      | _ \<Rightarrow> [])"

section \<open>Basic lemmas\<close>


lemma set_set_add_all: "set (set_add_all acc xs) = set acc \<union> set xs"
  by (induction xs arbitrary: acc) auto

lemma distinct_set_add_all: "distinct acc \<Longrightarrow> distinct (set_add_all acc xs)"
  by (induction xs arbitrary: acc) auto

lemma length_set_add_all: "length (set_add_all acc xs) \<le> length acc + length xs"
proof (induction xs arbitrary: acc)
  case Nil
  then show ?case by simp
next
  case (Cons x xs)
  have "length (set_add_all (if x \<in> set acc then acc else acc @ [x]) xs)
          \<le> length (if x \<in> set acc then acc else acc @ [x]) + length xs"
    by (rule Cons.IH)
  then show ?case by (simp split: if_splits)
qed

lemma set_new_Set: "set (new_Set xs) = set xs"
  by (simp add: new_Set_def set_set_add_all)

lemma distinct_new_Set: "distinct (new_Set xs)"
  by (simp add: new_Set_def distinct_set_add_all)

lemma length_new_Set: "length (new_Set xs) \<le> length xs"
  using length_set_add_all [of "[]" xs] by (simp add: new_Set_def)

lemma schedulingLoop_invariant:
  assumes "Inv s"
    and "\<And>s s'. Inv s \<Longrightarrow> remainingMatches s \<noteq> [] \<Longrightarrow> roundNumber s < maxIterations
           \<Longrightarrow> scheduleRound uuid players courts mt s = Some s' \<Longrightarrow> Inv s'"
  shows "Inv (schedulingLoop uuid players courts mt s)"
  using assms
proof (induction uuid players courts mt s rule: schedulingLoop.induct)
  case (1 uuid players courts mt s)
  note step = "1.prems"(2)
  show ?case
  proof (cases "remainingMatches s \<noteq> [] \<and> roundNumber s < maxIterations")
    case False
    then show ?thesis using "1.prems"(1) by (subst schedulingLoop.simps) auto
  next
    case guard: True
    show ?thesis
    proof (cases "scheduleRound uuid players courts mt s")
      case None
      then show ?thesis using guard "1.prems"(1) by (subst schedulingLoop.simps) auto
    next
      case (Some s')
      have "Inv s'" using step [OF "1.prems"(1) _ _ Some] guard by simp
      then have "Inv (schedulingLoop uuid players courts mt s')"
        using "1.IH" [OF guard Some] step by blast
      then show ?thesis using guard Some by (subst schedulingLoop.simps) auto
    qed
  qed
qed

subsection \<open>Sorting keeps the elements\<close>

lemma set_insert_by: "set (insert_by cmp x ys) = insert x (set ys)"
  by (induction ys) auto

lemma set_sort_by: "set (sort_by cmp xs) = set xs"
  by (induction xs) (auto simp: sort_by_def set_insert_by)

lemma distinct_map_insert_by:
  "distinct (map f (insert_by cmp x ys)) \<longleftrightarrow> f x \<notin> f ` set ys \<and> distinct (map f ys)"
  by (induction ys) (auto simp: set_insert_by)

lemma distinct_map_sort_by: "distinct (map f (sort_by cmp xs)) \<longleftrightarrow> distinct (map f xs)"
proof (induction xs)
  case Nil
  then show ?case by (simp add: sort_by_def)
next
  case (Cons x xs)
  have "sort_by cmp (x # xs) = insert_by cmp x (sort_by cmp xs)"
    by (simp add: sort_by_def)
  then show ?case using Cons by (simp add: distinct_map_insert_by set_sort_by)
qed

lemma subseq_subset: "subseq xs ys \<Longrightarrow> set xs \<subseteq> set ys"
  by (induction rule: list_emb.induct) auto

lemma subseq_distinct: "subseq xs ys \<Longrightarrow> distinct ys \<Longrightarrow> distinct xs"
proof (induction rule: list_emb.induct)
  case (list_emb_Cons2 x y xs ys)
  then have "x \<notin> set xs" using subseq_subset [of xs ys] by auto
  then show ?case using list_emb_Cons2 by simp
qed auto

subsection \<open>The three packing loops as one\<close>

lemma firstPass_pack:
  "firstPass courts stats r cs su =
     pack courts (\<lambda>sel c. \<not> critical stats r (cand_players c)) cand_match cand_players cs su"
  by (induction cs arbitrary: su) (auto simp: critical_def Let_def)

lemma secondPass_pack:
  "secondPass courts cs su =
     pack courts (\<lambda>sel c. cand_match c \<in> set sel) cand_match cand_players cs su"
  by (induction cs arbitrary: su) auto

lemma repairPass_pack:
  "repairPass courts missing ms su =
     pack courts (\<lambda>sel m. \<not> list_ex (\<lambda>u. u \<in> set (getMatchPlayers m)) missing)
       (\<lambda>m. m) getMatchPlayers ms su"
  by (induction ms arbitrary: su) (auto simp: Let_def)

lemma pack_length:
  "of_nat (length sel) < courts + 1
     \<Longrightarrow> of_nat (length (fst (pack courts skip mf pf cs (sel, used)))) < courts + 1"
  by (induction cs arbitrary: sel used) auto

lemma pack_shape:
  "\<exists>ext. fst (pack courts skip mf pf cs (sel, used)) = sel @ ext \<and> subseq ext (map mf cs)"
proof (induction cs arbitrary: sel used)
  case Nil
  then show ?case by simp
next
  case (Cons c cs)
  obtain e1 where e1: "fst (pack courts skip mf pf cs (sel, used)) = sel @ e1"
      "subseq e1 (map mf cs)"
    using Cons.IH by blast
  obtain e2 where e2:
      "fst (pack courts skip mf pf cs (sel @ [mf c], set_add_all used (pf c))) = (sel @ [mf c]) @ e2"
      "subseq e2 (map mf cs)"
    using Cons.IH by blast
  have a: "subseq e1 (map mf (c # cs))" using e1(2) by (simp add: list_emb_Cons)
  have b: "subseq (mf c # e2) (map mf (c # cs))" using e2(2) by simp
  have c: "subseq [] (map mf (c # cs))" by simp
  show ?case
    using e1(1) e2(1) a b c by (auto simp del: subseq_Cons2_iff list.map)
qed

lemma hasConflict_iff: "hasConflict used ps \<longleftrightarrow> set used \<inter> set ps \<noteq> {}"
  by (auto simp: hasConflict_def list_ex_iff)

lemma covered_iff: "covered sel used \<longleftrightarrow> (\<forall>m\<in>set sel. set (getMatchPlayers m) \<subseteq> set used)"
  by (auto simp: covered_def list_all_iff)

lemma disjointMatches_snoc:
  "disjointMatches (sel @ [m]) \<longleftrightarrow>
     disjointMatches sel \<and> (\<forall>m'\<in>set sel. set (getMatchPlayers m') \<inter> set (getMatchPlayers m) = {})"
  by (induction sel) (auto simp: hasConflict_iff list_all_iff)

lemma disjointMatches_nth:
  "disjointMatches ms \<Longrightarrow> i < j \<Longrightarrow> j < length ms
     \<Longrightarrow> set (getMatchPlayers (ms ! i)) \<inter> set (getMatchPlayers (ms ! j)) = {}"
proof (induction ms arbitrary: i j)
  case Nil
  then show ?case by simp
next
  case (Cons m ms)
  show ?case
  proof (cases i)
    case 0
    then obtain j' where j': "j = Suc j'" using Cons.prems(2) by (cases j) auto
    then have "ms ! j' \<in> set ms" using Cons.prems(3) by simp
    then show ?thesis using Cons.prems(1) 0 j' by (auto simp: hasConflict_iff list_all_iff)
  next
    case (Suc i')
    then obtain j' where j': "j = Suc j'" using Cons.prems(2) by (cases j) auto
    have "disjointMatches ms" using Cons.prems(1) by simp
    moreover have "i' < j'" "j' < length ms" using Cons.prems(2,3) Suc j' by simp_all
    ultimately have "set (getMatchPlayers (ms ! i')) \<inter> set (getMatchPlayers (ms ! j')) = {}"
      by (rule Cons.IH)
    then show ?thesis by (simp add: Suc j')
  qed
qed

lemma pack_packed:
  assumes "\<forall>c\<in>set cs. pf c = getMatchPlayers (mf c)"
    and "disjointMatches sel" and "covered sel used"
  shows "disjointMatches (fst (pack courts skip mf pf cs (sel, used)))
         \<and> covered (fst (pack courts skip mf pf cs (sel, used)))
                   (snd (pack courts skip mf pf cs (sel, used)))"
  using assms
proof (induction cs arbitrary: sel used)
  case Nil
  then show ?case by simp
next
  case (Cons c cs)
  have pf: "pf c = getMatchPlayers (mf c)" and rest: "\<forall>c\<in>set cs. pf c = getMatchPlayers (mf c)"
    using Cons.prems(1) by auto
  show ?case
  proof (cases "of_nat (length sel) \<ge> courts \<or> skip sel c \<or> hasConflict used (pf c)")
    case True
    then show ?thesis using Cons.IH [OF rest Cons.prems(2,3)] Cons.prems(2,3) by auto
  next
    case False
    then have nc: "set used \<inter> set (getMatchPlayers (mf c)) = {}"
      by (simp add: hasConflict_iff pf)
    have d: "disjointMatches (sel @ [mf c])"
      using Cons.prems(2,3) nc by (auto simp: disjointMatches_snoc covered_iff)
    have cv: "covered (sel @ [mf c]) (set_add_all used (pf c))"
      using Cons.prems(3) by (auto simp: covered_iff set_set_add_all pf)
    show ?thesis using Cons.IH [OF rest d cv] False by simp
  qed
qed

lemma pack_distinct:
  assumes "\<And>sel c. c \<in> set cs \<Longrightarrow> \<not> skip sel c \<Longrightarrow> mf c \<notin> set sel" and "distinct sel"
  shows "distinct (fst (pack courts skip mf pf cs (sel, used)))"
  using assms
proof (induction cs arbitrary: sel used)
  case Nil
  then show ?case by simp
next
  case (Cons c cs)
  have rest: "\<And>sel c'. c' \<in> set cs \<Longrightarrow> \<not> skip sel c' \<Longrightarrow> mf c' \<notin> set sel"
    using Cons.prems(1) by simp
  show ?case
  proof (cases "of_nat (length sel) \<ge> courts \<or> skip sel c \<or> hasConflict used (pf c)")
    case True
    then show ?thesis using Cons.IH [OF rest Cons.prems(2)] Cons.prems(2) by auto
  next
    case False
    then have "mf c \<notin> set sel" using Cons.prems(1) [of c sel] by simp
    then have "distinct (sel @ [mf c])" using Cons.prems(2) by simp
    then show ?thesis using Cons.IH [OF rest] False by simp
  qed
qed

subsection \<open>Facts about \<open>selectRoundMatches\<close>\<close>

lemma cand_match_makeCandidate [simp]: "cand_match (makeCandidate stats usage lastUsed r m) = m"
  by (simp add: makeCandidate_def Let_def)

lemma cand_players_makeCandidate [simp]:
  "cand_players (makeCandidate stats usage lastUsed r m) = getMatchPlayers m"
  by (simp add: makeCandidate_def Let_def)

lemma candidatesOf_players:
  "\<forall>c\<in>set (candidatesOf avail stats usage lastUsed r). cand_players c = getMatchPlayers (cand_match c)"
  by (auto simp: candidatesOf_def set_sort_by)

lemma candidatesOf_matches:
  "set (map cand_match (candidatesOf avail stats usage lastUsed r)) = set avail"
  by (force simp: candidatesOf_def set_sort_by)

lemma candidatesOf_distinct:
  "distinct avail \<Longrightarrow> distinct (map cand_match (candidatesOf avail stats usage lastUsed r))"
  by (simp add: candidatesOf_def distinct_map_sort_by o_def)

lemma selectRoundMatches_eq:
  "selectRoundMatches avail courts stats usage lastUsed r =
     (if avail = [] \<or> courts = 0 then []
      else fst (secondPass courts (candidatesOf avail stats usage lastUsed r)
                 (firstPass courts stats r (candidatesOf avail stats usage lastUsed r) ([], []))))"
  by (simp add: selectRoundMatches_def candidatesOf_def Let_def)

lemma selectRoundMatches_length:
  "0 \<le> courts
     \<Longrightarrow> of_nat (length (selectRoundMatches avail courts stats usage lastUsed r)) < courts + 1"
proof -
  assume c: "0 \<le> courts"
  let ?cs = "candidatesOf avail stats usage lastUsed r"
  obtain s1 u1 where fp: "firstPass courts stats r ?cs ([], []) = (s1, u1)" by (cases "firstPass courts stats r ?cs ([], [])")
  have "of_nat (length (fst (firstPass courts stats r ?cs ([], [])))) < courts + 1"
    unfolding firstPass_pack using c by (intro pack_length) simp
  then have "of_nat (length s1) < courts + 1" using fp by simp
  then have "of_nat (length (fst (secondPass courts ?cs (s1, u1)))) < courts + 1"
    unfolding secondPass_pack by (rule pack_length)
  then show ?thesis using c fp by (simp add: selectRoundMatches_eq)
qed

lemma selectRoundMatches_subset:
  "set (selectRoundMatches avail courts stats usage lastUsed r) \<subseteq> set avail"
proof -
  let ?cs = "candidatesOf avail stats usage lastUsed r"
  obtain s1 u1 where fp: "firstPass courts stats r ?cs ([], []) = (s1, u1)" by (cases "firstPass courts stats r ?cs ([], [])")
  obtain e1 where e1: "fst (firstPass courts stats r ?cs ([], [])) = [] @ e1" "subseq e1 (map cand_match ?cs)"
    unfolding firstPass_pack using pack_shape by blast
  obtain e2 where e2: "fst (secondPass courts ?cs (s1, u1)) = s1 @ e2" "subseq e2 (map cand_match ?cs)"
    unfolding secondPass_pack using pack_shape by blast
  have "set e1 \<subseteq> set avail" "set e2 \<subseteq> set avail"
    using e1(2) e2(2) candidatesOf_matches [of avail stats usage lastUsed r]
    by (metis subseq_subset)+
  then show ?thesis using e1(1) e2(1) fp by (auto simp: selectRoundMatches_eq)
qed

lemma selectRoundMatches_distinct:
  assumes "distinct avail"
  shows "distinct (selectRoundMatches avail courts stats usage lastUsed r)"
proof -
  let ?cs = "candidatesOf avail stats usage lastUsed r"
  obtain s1 u1 where fp: "firstPass courts stats r ?cs ([], []) = (s1, u1)" by (cases "firstPass courts stats r ?cs ([], [])")
  obtain e1 where e1: "fst (firstPass courts stats r ?cs ([], [])) = [] @ e1" "subseq e1 (map cand_match ?cs)"
    unfolding firstPass_pack using pack_shape by blast
  have "distinct e1" using e1(2) candidatesOf_distinct [OF assms] subseq_distinct by blast
  then have d1: "distinct s1" using e1(1) fp by simp
  have "distinct (fst (pack courts (\<lambda>sel c. cand_match c \<in> set sel) cand_match cand_players ?cs (s1, u1)))"
    by (rule pack_distinct [OF _ d1]) simp
  then show ?thesis using fp by (simp add: selectRoundMatches_eq secondPass_pack)
qed

lemma selectRoundMatches_disjoint:
  "disjointMatches (selectRoundMatches avail courts stats usage lastUsed r)"
proof -
  let ?cs = "candidatesOf avail stats usage lastUsed r"
  let ?skip1 = "\<lambda>(sel :: MatchObj list) c. \<not> critical stats r (cand_players c)"
  let ?skip2 = "\<lambda>(sel :: MatchObj list) c. cand_match c \<in> set sel"
  have cp: "\<forall>c\<in>set ?cs. cand_players c = getMatchPlayers (cand_match c)"
    by (rule candidatesOf_players)
  obtain s1 u1 where fp: "pack courts ?skip1 cand_match cand_players ?cs ([], []) = (s1, u1)"
    by (cases "pack courts ?skip1 cand_match cand_players ?cs ([], [])")
  have d0: "disjointMatches []" and c0: "covered [] []" by (simp_all add: covered_def)
  have "disjointMatches s1 \<and> covered s1 u1"
    using pack_packed [OF cp d0 c0, of courts ?skip1] fp by simp
  then have d1: "disjointMatches s1" and c1: "covered s1 u1" by simp_all
  have "disjointMatches (fst (pack courts ?skip2 cand_match cand_players ?cs (s1, u1)))"
    using pack_packed [OF cp d1 c1, of courts ?skip2] by simp
  then show ?thesis using fp by (simp add: selectRoundMatches_eq secondPass_pack firstPass_pack)
qed

subsection \<open>Validation\<close>

lemma set_add_all_dedupFirst:
  "set_add_all acc xs = acc @ dedupFirst (filter (\<lambda>x. x \<notin> set acc) xs)"
proof (induction xs arbitrary: acc)
  case Nil
  then show ?case by simp
next
  case (Cons x xs)
  show ?case
  proof (cases "x \<in> set acc")
    case True
    then show ?thesis using Cons.IH [of acc] by simp
  next
    case False
    have "removeAll x (filter (\<lambda>y. y \<notin> set acc) xs) = filter (\<lambda>y. y \<notin> set (acc @ [x])) xs"
      by (induction xs) auto
    then show ?thesis using False Cons.IH [of "acc @ [x]"] by simp
  qed
qed

lemma new_Set_dedupFirst: "new_Set xs = dedupFirst xs"
  using set_add_all_dedupFirst [of "[]" xs] by (simp add: new_Set_def)

lemma generateSchedule_Inr:
  "5 \<le> length (new_Set inputPlayers) \<Longrightarrow> 1 \<le> courts \<Longrightarrow>
     generateSchedule uuid inputPlayers courts mt =
       Inr (scheduleOf uuid (new_Set inputPlayers) courts mt,
            if length (new_Set inputPlayers) > 16 then Some ''large_n; fallback_to_greedy'' else None)"
  by (simp add: generateSchedule_def scheduleOf_def Let_def)

lemma generateSchedule_Inl:
  "length (new_Set inputPlayers) < 5 \<or> courts < 1 \<Longrightarrow>
     \<exists>e. generateSchedule uuid inputPlayers courts mt = Inl e"
  by (auto simp: generateSchedule_def Let_def)

subsection \<open>Enumeration\<close>

lemma matchesFrom_appends:
  "matchesFrom uuid t us (acc, n) = (ms, n') \<Longrightarrow>
     \<exists>new. ms = acc @ new \<and> n \<le> n' \<and> map match_id new = map uuid [n..<n']
           \<and> (\<forall>m\<in>set new. teamA m = t \<and> teamB m \<in> set us)"
proof (induction us arbitrary: acc n)
  case Nil
  then show ?case by simp
next
  case (Cons u us)
  show ?case
  proof (cases "teamsOverlap t u")
    case True
    then have "matchesFrom uuid t us (acc, n) = (ms, n')" using Cons.prems by simp
    from Cons.IH [OF this] show ?thesis by auto
  next
    case False
    let ?x = "\<lparr>match_id = uuid n, teamA = t, teamB = u\<rparr>"
    from False have "matchesFrom uuid t us (acc @ [?x], Suc n) = (ms, n')" using Cons.prems by simp
    from Cons.IH [OF this] obtain new1 where n1: "ms = (acc @ [?x]) @ new1" "Suc n \<le> n'"
        "map match_id new1 = map uuid [Suc n..<n']"
        "\<forall>m\<in>set new1. teamA m = t \<and> teamB m \<in> set us"
      by blast
    have "ms = acc @ (?x # new1)" using n1(1) by simp
    moreover have "n \<le> n'" using n1(2) by simp
    moreover have "map match_id (?x # new1) = map uuid [n..<n']"
      using n1(2,3) by (simp add: upt_conv_Cons)
    moreover have "\<forall>m\<in>set (?x # new1). teamA m = t \<and> teamB m \<in> set (u # us)"
      using n1(4) by simp
    ultimately show ?thesis by blast
  qed
qed

lemma matchesLoop_appends:
  "matchesLoop uuid ts (acc, n) = (ms, n') \<Longrightarrow>
     \<exists>new. ms = acc @ new \<and> n \<le> n' \<and> map match_id new = map uuid [n..<n']
           \<and> (\<forall>m\<in>set new. teamA m \<in> set ts \<and> teamB m \<in> set ts)"
proof (induction ts arbitrary: acc n)
  case Nil
  then show ?case by simp
next
  case (Cons t ts)
  obtain ms1 n1 where r1: "matchesFrom uuid t ts (acc, n) = (ms1, n1)"
    by (cases "matchesFrom uuid t ts (acc, n)")
  from matchesFrom_appends [OF r1] obtain new1 where a: "ms1 = acc @ new1" "n \<le> n1"
      "map match_id new1 = map uuid [n..<n1]"
      "\<forall>m\<in>set new1. teamA m = t \<and> teamB m \<in> set ts"
    by blast
  have "matchesLoop uuid ts (ms1, n1) = (ms, n')" using Cons.prems r1 by simp
  from Cons.IH [OF this] obtain new2 where b: "ms = ms1 @ new2" "n1 \<le> n'"
      "map match_id new2 = map uuid [n1..<n']"
      "\<forall>m\<in>set new2. teamA m \<in> set ts \<and> teamB m \<in> set ts"
    by blast
  have u: "[n..<n'] = [n..<n1] @ [n1..<n']"
    using a(2) b(2) by (metis le_Suc_ex upt_add_eq_append)
  have "ms = acc @ (new1 @ new2)" using a(1) b(1) by simp
  moreover have "n \<le> n'" using a(2) b(2) by simp
  moreover have "map match_id (new1 @ new2) = map uuid [n..<n']" using a(3) b(3) u by simp
  moreover have "\<forall>m\<in>set (new1 @ new2). teamA m \<in> set (t # ts) \<and> teamB m \<in> set (t # ts)"
    using a(4) b(4) by auto
  ultimately show ?case by blast
qed

lemma generateAllMatches_ids:
  "generateAllMatches uuid n ts = (ms, n') \<Longrightarrow> n \<le> n' \<and> map match_id ms = map uuid [n..<n']"
  unfolding generateAllMatches_def by (drule matchesLoop_appends) auto

lemma generateAllMatches_teams:
  "generateAllMatches uuid n ts = (ms, n') \<Longrightarrow> m \<in> set ms
     \<Longrightarrow> teamA m \<in> set ts \<and> teamB m \<in> set ts"
  unfolding generateAllMatches_def by (drule matchesLoop_appends) auto

lemma pairsFrom_players: "t \<in> set (pairsFrom ps) \<Longrightarrow> set t \<subseteq> set ps"
  by (induction ps) auto

lemma generateTeams_players: "t \<in> set (generateTeams players mt) \<Longrightarrow> set t \<subseteq> set players"
  by (cases mt) (auto simp: generateTeams_def dest: pairsFrom_players)

lemma set_getMatchPlayers: "set (getMatchPlayers m) = set (teamA m) \<union> set (teamB m)"
  by (simp add: getMatchPlayers_def set_new_Set)

lemma generateAllMatches_players:
  assumes "generateAllMatches uuid n (generateTeams players mt) = (ms, n')" and "m \<in> set ms"
  shows "set (getMatchPlayers m) \<subseteq> set players"
proof -
  have "teamA m \<in> set (generateTeams players mt)" "teamB m \<in> set (generateTeams players mt)"
    using generateAllMatches_teams [OF assms] by simp_all
  then show ?thesis using generateTeams_players by (simp add: set_getMatchPlayers)
qed

subsection \<open>The repair block\<close>

lemma set_playingOf_aux:
  "set (foldl (\<lambda>playing m. set_add_all playing (getMatchPlayers m)) acc ms)
     = set acc \<union> (\<Union>m\<in>set ms. set (getMatchPlayers m))"
  by (induction ms arbitrary: acc) (auto simp: set_set_add_all)

lemma set_playingOf: "set (playingOf ms) = (\<Union>m\<in>set ms. set (getMatchPlayers m))"
  by (simp add: playingOf_def set_playingOf_aux)

text \<open>What the repair block returns: the selection, extended by freshly enumerated matches.\<close>

lemma urgencyRepair_shape:
  assumes "urgencyRepair uuid players courts mt s rm = (rm', n')"
  shows "\<exists>ext all n''. rm' = rm @ ext
           \<and> generateAllMatches uuid (uuidCalls s) (generateTeams players mt) = (all, n'')
           \<and> subseq ext all \<and> (n' = n'' \<or> ext = [] \<and> n' = uuidCalls s)"
proof -
  obtain all n'' where g: "generateAllMatches uuid (uuidCalls s) (generateTeams players mt) = (all, n'')"
    by (cases "generateAllMatches uuid (uuidCalls s) (generateTeams players mt)")
  let ?missing = "filter (\<lambda>p. p \<notin> set (playingOf rm)) (urgentPlayers players (playerStats s) (roundNumber s))"
  show ?thesis
  proof (cases "hasUrgentPlayer players (playerStats s) (roundNumber s)
                \<and> ?missing \<noteq> [] \<and> of_nat (length rm) < courts")
    case True
    then have r: "rm' = fst (repairPass courts ?missing all (rm, playingOf rm))" "n' = n''"
      using assms g by (simp_all add: urgencyRepair_def Let_def)
    obtain ext where "fst (repairPass courts ?missing all (rm, playingOf rm)) = rm @ ext"
        "subseq ext (map (\<lambda>m. m) all)"
      unfolding repairPass_pack using pack_shape by blast
    then show ?thesis using r g by auto
  next
    case False
    then have "rm' = rm" "n' = uuidCalls s"
      using assms by (auto simp: urgencyRepair_def Let_def split: if_splits)
    then show ?thesis using g by auto
  qed
qed


lemma urgencyRepair_disjoint:
  assumes "disjointMatches rm"
  shows "disjointMatches (fst (urgencyRepair uuid players courts mt s rm))"
proof -
  have c: "covered rm (playingOf rm)" by (auto simp: covered_iff set_playingOf)
  have "disjointMatches (fst (repairPass courts missing all (rm, playingOf rm)))" for missing all
    unfolding repairPass_pack
    using pack_packed [where mf = "\<lambda>m. m" and pf = getMatchPlayers and cs = all, OF _ assms c]
    by simp
  then show ?thesis using assms
    by (auto simp: urgencyRepair_def Let_def split: prod.splits)
qed

subsection \<open>One pass through the loop body\<close>

lemma scheduleRound_SomeE:
  assumes "scheduleRound uuid players courts mt s = Some s'"
  obtains rm n' where "\<not> safetyStop players s"
    and "urgencyRepair uuid players courts mt s (selectedOf courts s) = (rm, n')"
    and "rm \<noteq> []" and "s' = commitRound players s rm n'"
  using assms
  by (auto simp: scheduleRound_def selectedOf_def Let_def split: if_splits prod.splits)

lemma commitRound_simps [simp]:
  "rounds (commitRound players s rm n') = rounds s @
     [\<lparr>round_id = ''r'' @ string_of_nat (nat (roundNumber s + 1)), matches = rm,
       resting = filter (\<lambda>p. p \<notin> set (playingOf rm)) players, completed = False\<rparr>]"
  "remainingMatches (commitRound players s rm n') =
     filter (\<lambda>m. match_id m \<notin> set (map match_id rm)) (remainingMatches s)"
  "roundNumber (commitRound players s rm n') = roundNumber s + 1"
  "uuidCalls (commitRound players s rm n') = n'"
  "playerStats (commitRound players s rm n') =
     updatePlayerStats players (playingOf rm) (roundNumber s) (playerStats s)"
  by (simp_all add: commitRound_def Let_def)

lemma initialState_simps [simp]:
  "rounds (initialState uuid players mt) = []"
  "roundNumber (initialState uuid players mt) = 0"
  "remainingMatches (initialState uuid players mt)
     = fst (generateAllMatches uuid 0 (generateTeams players mt))"
  "uuidCalls (initialState uuid players mt)
     = snd (generateAllMatches uuid 0 (generateTeams players mt))"
  by (simp_all add: initialState_def Let_def split: prod.splits)

text \<open>
  A property of single rounds that every committed round has, given an invariant of the
  loop state, holds for every round of the schedule.
\<close>

lemma scheduleOf_rounds:
  assumes init: "Inv (initialState uuid players mt)"
    and step: "\<And>s rm n'. Inv s \<Longrightarrow> \<not> safetyStop players s
        \<Longrightarrow> urgencyRepair uuid players courts mt s (selectedOf courts s) = (rm, n')
        \<Longrightarrow> rm \<noteq> [] \<Longrightarrow> remainingMatches s \<noteq> [] \<Longrightarrow> roundNumber s < maxIterations
        \<Longrightarrow> Inv (commitRound players s rm n')
            \<and> Q (rounds s) \<lparr>round_id = ''r'' @ string_of_nat (nat (roundNumber s + 1)), matches = rm,
                   resting = filter (\<lambda>p. p \<notin> set (playingOf rm)) players, completed = False\<rparr>"
  shows "\<forall>i < length (scheduleOf uuid players courts mt).
           Q (take i (scheduleOf uuid players courts mt)) (scheduleOf uuid players courts mt ! i)"
proof -
  let ?I = "\<lambda>s. Inv s \<and> (\<forall>i < length (rounds s). Q (take i (rounds s)) (rounds s ! i))"
  have "?I (schedulingLoop uuid players courts mt (initialState uuid players mt))"
  proof (rule schedulingLoop_invariant)
    show "?I (initialState uuid players mt)" using init by simp
  next
    fix s s'
    assume I: "?I s" and g: "remainingMatches s \<noteq> []" "roundNumber s < maxIterations"
      and r: "scheduleRound uuid players courts mt s = Some s'"
    from r obtain rm n' where f: "\<not> safetyStop players s"
        "urgencyRepair uuid players courts mt s (selectedOf courts s) = (rm, n')"
        "rm \<noteq> []" "s' = commitRound players s rm n'"
      by (rule scheduleRound_SomeE)
    let ?r = "\<lparr>round_id = ''r'' @ string_of_nat (nat (roundNumber s + 1)), matches = rm,
                   resting = filter (\<lambda>p. p \<notin> set (playingOf rm)) players, completed = False\<rparr>"
    have st: "Inv s' \<and> Q (rounds s) ?r"
      using step [OF _ f(1,2,3) g] I f(4) by simp
    have rs: "rounds s' = rounds s @ [?r]" using f(4) by simp
    have "Q (take i (rounds s')) (rounds s' ! i)" if "i < length (rounds s')" for i
    proof (cases "i < length (rounds s)")
      case True
      then show ?thesis using I by (simp add: rs nth_append)
    next
      case False
      then have "i = length (rounds s)" using that rs by simp
      then show ?thesis using st by (simp add: rs)
    qed
    then show "?I s'" using st by simp
  qed
  then show ?thesis by (simp add: scheduleOf_def)
qed

lemma scheduleOf_rounds_set:
  assumes init: "Inv (initialState uuid players mt)"
    and step: "\<And>s rm n'. Inv s \<Longrightarrow> \<not> safetyStop players s
        \<Longrightarrow> urgencyRepair uuid players courts mt s (selectedOf courts s) = (rm, n')
        \<Longrightarrow> rm \<noteq> [] \<Longrightarrow> remainingMatches s \<noteq> [] \<Longrightarrow> roundNumber s < maxIterations
        \<Longrightarrow> Inv (commitRound players s rm n')
            \<and> Q \<lparr>round_id = ''r'' @ string_of_nat (nat (roundNumber s + 1)), matches = rm,
                   resting = filter (\<lambda>p. p \<notin> set (playingOf rm)) players, completed = False\<rparr>"
    and r: "r \<in> set (scheduleOf uuid players courts mt)"
  shows "Q r"
proof -
  have "\<forall>i < length (scheduleOf uuid players courts mt).
           (\<lambda>_. Q) (take i (scheduleOf uuid players courts mt)) (scheduleOf uuid players courts mt ! i)"
    by (rule scheduleOf_rounds [where Inv = Inv and Q = "\<lambda>_. Q"]) (use init step in auto)
  then show ?thesis using r by (auto simp: in_set_conv_nth)
qed

subsection \<open>Round sizes\<close>

lemma selectedOf_facts:
  "0 \<le> courts \<Longrightarrow> of_nat (length (selectedOf courts s)) < courts + 1"
  "set (selectedOf courts s) \<subseteq> set (remainingMatches s)"
  "disjointMatches (selectedOf courts s)"
  "distinct (remainingMatches s) \<Longrightarrow> distinct (selectedOf courts s)"
  by (simp_all add: selectedOf_def selectRoundMatches_length selectRoundMatches_subset
        selectRoundMatches_disjoint selectRoundMatches_distinct)


lemma round_disjoint:
  assumes "r \<in> set (scheduleOf uuid players courts mt)"
  shows "disjointMatches (matches r)"
proof (rule scheduleOf_rounds_set [where Inv = "\<lambda>_. True" and Q = "\<lambda>r. disjointMatches (matches r)", OF _ _ assms])
  show True ..
next
  fix s rm n'
  assume u: "urgencyRepair uuid players courts mt s (selectedOf courts s) = (rm, n')"
  have "disjointMatches (fst (urgencyRepair uuid players courts mt s (selectedOf courts s)))"
    by (rule urgencyRepair_disjoint) (simp add: selectedOf_facts)
  then show "True \<and> disjointMatches (matches \<lparr>round_id = ''r'' @ string_of_nat (nat (roundNumber s + 1)), matches = rm,
                   resting = filter (\<lambda>p. p \<notin> set (playingOf rm)) players, completed = False\<rparr>)"
    using u by simp
qed

lemma rounds_bounded: "length (scheduleOf uuid players courts mt) \<le> 1000"
proof -
  let ?I = "\<lambda>s. int (length (rounds s)) = roundNumber s \<and> roundNumber s \<le> maxIterations"
  have "?I (schedulingLoop uuid players courts mt (initialState uuid players mt))"
  proof (rule schedulingLoop_invariant)
    show "?I (initialState uuid players mt)" by (simp add: maxIterations_def)
  next
    fix s s'
    assume I: "?I s" and g: "roundNumber s < maxIterations"
      and r: "scheduleRound uuid players courts mt s = Some s'"
    from r obtain rm n' where "s' = commitRound players s rm n'"
      by (rule scheduleRound_SomeE)
    then show "?I s'" using I g by simp
  qed
  then show ?thesis by (simp add: scheduleOf_def maxIterations_def)
qed

subsection \<open>The concrete runs, evaluated\<close>

lemma S1_schedule: "generateSchedule uuid0 S1_players 1 Singles = Inr (S1_rounds, None)"
  by code_simp

lemma S6_schedule: "generateSchedule uuid0 S6_players 2 Singles = Inr (S6_rounds, None)"
  by code_simp


lemma S8_schedule: "generateSchedule uuid0 S8_players 3 Singles = Inr (S8_rounds, None)"
  by code_simp


subsection \<open>From the loop to the result of \<open>generateSchedule\<close>\<close>

lemma generateSchedule_InrD:
  assumes "generateSchedule uuid inputPlayers courts mt = Inr (rs, w)"
  shows "5 \<le> length (new_Set inputPlayers)" and "1 \<le> courts"
    and "rs = scheduleOf uuid (new_Set inputPlayers) courts mt"
proof -
  have ok: "\<not> (length (new_Set inputPlayers) < 5 \<or> courts < 1)"
    using generateSchedule_Inl [of inputPlayers courts uuid mt] assms by auto
  then show "5 \<le> length (new_Set inputPlayers)" "1 \<le> courts" by simp_all
  then show "rs = scheduleOf uuid (new_Set inputPlayers) courts mt"
    using generateSchedule_Inr [of inputPlayers courts uuid mt] assms by simp
qed

lemma round_partition:
  assumes r: "r \<in> set (scheduleOf uuid players courts mt)" and d: "distinct players"
  shows "set (resting r) \<inter> (\<Union>m\<in>set (matches r). set (getMatchPlayers m)) = {}
       \<and> set (resting r) \<union> (\<Union>m\<in>set (matches r). set (getMatchPlayers m)) = set players
       \<and> distinct (resting r)"
proof (rule scheduleOf_rounds_set
    [where Inv = "\<lambda>s. \<forall>m\<in>set (remainingMatches s). set (getMatchPlayers m) \<subseteq> set players"
       and Q = "\<lambda>r. set (resting r) \<inter> (\<Union>m\<in>set (matches r). set (getMatchPlayers m)) = {}
       \<and> set (resting r) \<union> (\<Union>m\<in>set (matches r). set (getMatchPlayers m)) = set players
       \<and> distinct (resting r)", OF _ _ r])
  show "\<forall>m\<in>set (remainingMatches (initialState uuid players mt)). set (getMatchPlayers m) \<subseteq> set players"
    using generateAllMatches_players [of uuid 0 players mt]
    by (metis initialState_simps(3) prod.collapse)
next
  fix s rm n'
  assume I: "\<forall>m\<in>set (remainingMatches s). set (getMatchPlayers m) \<subseteq> set players"
    and u: "urgencyRepair uuid players courts mt s (selectedOf courts s) = (rm, n')"
  let ?r = "\<lparr>round_id = ''r'' @ string_of_nat (nat (roundNumber s + 1)), matches = rm,
             resting = filter (\<lambda>p. p \<notin> set (playingOf rm)) players, completed = False\<rparr>"
  obtain ext all n'' where sh: "rm = selectedOf courts s @ ext"
      "generateAllMatches uuid (uuidCalls s) (generateTeams players mt) = (all, n'')" "subseq ext all"
    using urgencyRepair_shape [OF u] by blast
  have "set (getMatchPlayers m) \<subseteq> set players" if "m \<in> set rm" for m
  proof (cases "m \<in> set (selectedOf courts s)")
    case True
    then show ?thesis using I selectedOf_facts(2) by blast
  next
    case False
    then have "m \<in> set all" using that sh(1,3) subseq_subset by fastforce
    then show ?thesis using generateAllMatches_players [OF sh(2)] by simp
  qed
  then have sub: "set (playingOf rm) \<subseteq> set players" by (auto simp: set_playingOf)
  have "set (resting ?r) \<inter> (\<Union>m\<in>set (matches ?r). set (getMatchPlayers m)) = {}"
    by (auto simp: set_playingOf)
  moreover have "set (resting ?r) \<union> (\<Union>m\<in>set (matches ?r). set (getMatchPlayers m)) = set players"
    using sub by (auto simp: set_playingOf)
  moreover have "distinct (resting ?r)" using d by simp
  moreover have "\<forall>m\<in>set (remainingMatches (commitRound players s rm n')). set (getMatchPlayers m) \<subseteq> set players"
    using I by simp
  ultimately show "(\<forall>m\<in>set (remainingMatches (commitRound players s rm n')). set (getMatchPlayers m) \<subseteq> set players)
    \<and> (set (resting ?r) \<inter> (\<Union>m\<in>set (matches ?r). set (getMatchPlayers m)) = {}
       \<and> set (resting ?r) \<union> (\<Union>m\<in>set (matches ?r). set (getMatchPlayers m)) = set players
       \<and> distinct (resting ?r))"
    by blast
qed

subsection \<open>The safety check\<close>

lemma hasUrgentPlayer_iff:
  "hasUrgentPlayer players stats r \<longleftrightarrow>
     (\<exists>p\<in>set players. r - lastPlayedRound (statsOf stats p) \<ge> maxConsecutiveRestsOf (length players))"
  by (simp add: hasUrgentPlayer_def isUrgent_def list_ex_iff)

lemma set_urgentPlayers:
  "set (urgentPlayers players stats r) =
     {p \<in> set players. r - lastPlayedRound (statsOf stats p) \<ge> maxConsecutiveRestsOf (length players)}"
  by (auto simp: urgentPlayers_def set_new_Set isUrgent_def)

lemma canScheduleUrgent_iff:
  "canScheduleUrgent remaining urgent \<longleftrightarrow>
     (\<exists>m\<in>set remaining. \<exists>p\<in>set urgent. p \<in> set (getMatchPlayers m))"
  by (simp add: canScheduleUrgent_def list_ex_iff)

lemma schedulingLoop_safetyStop:
  "safetyStop players s \<Longrightarrow> schedulingLoop uuid players courts mt s = s"
  by (subst schedulingLoop.simps) (simp add: scheduleRound_def)

subsection \<open>Match ids\<close>

lemma inj_uuid0: "inj uuid0"
proof (rule injI)
  fix x y assume eq: "uuid0 x = uuid0 y"
  then have "length (uuid0 x) = length (uuid0 y)" by simp
  then have d: "x div 64 = y div 64" by (simp add: uuid0_def)
  have "last (uuid0 x) = last (uuid0 y)" using eq by simp
  then have "char_of (48 + x mod 64) = (char_of (48 + y mod 64) :: char)" by (simp add: uuid0_def)
  then have "(of_char (char_of (48 + x mod 64) :: char) :: nat) = of_char (char_of (48 + y mod 64) :: char)"
    by simp
  then have "(48 + x mod 64) mod 256 = (48 + y mod 64) mod 256" by simp
  then have m: "x mod 64 = y mod 64" by simp
  have "x = 64 * (x div 64) + x mod 64" by simp
  also have "\<dots> = 64 * (y div 64) + y mod 64" using d m by simp
  also have "\<dots> = y" by simp
  finally show "x = y" .
qed

lemma idsInv_initial:
  assumes "inj uuid"
  shows "idsInv uuid (initialState uuid players mt)"
proof -
  obtain all n where g: "generateAllMatches uuid 0 (generateTeams players mt) = (all, n)"
    by (cases "generateAllMatches uuid 0 (generateTeams players mt)")
  have ids: "map match_id all = map uuid [0..<n]" using generateAllMatches_ids [OF g] by simp
  have "distinct (map uuid [0..<n])" using assms by (simp add: distinct_map inj_on_def inj_def)
  moreover have "set (map uuid [0..<n]) \<subseteq> uuid ` {..<n}" by auto
  ultimately show ?thesis using g ids by (simp add: idsInv_def allIds_def)
qed

lemma distinct_three:
  "distinct A \<Longrightarrow> distinct B \<Longrightarrow> distinct C \<Longrightarrow> set A \<inter> set B = {}
     \<Longrightarrow> set A \<inter> set C = {} \<Longrightarrow> set B \<inter> set C = {} \<Longrightarrow> distinct ((A @ B) @ C)"
  by auto

lemma idsInv_step:
  assumes inj: "inj uuid" and I: "idsInv uuid s"
    and u: "urgencyRepair uuid players courts mt s (selectedOf courts s) = (rm, n')"
  shows "idsInv uuid (commitRound players s rm n')"
proof -
  let ?old = "allIds (rounds s)"
  let ?rem = "remainingMatches s"
  let ?sel = "selectedOf courts s"
  let ?n = "uuidCalls s"
  obtain ext all n'' where sh: "rm = ?sel @ ext"
      "generateAllMatches uuid ?n (generateTeams players mt) = (all, n'')" "subseq ext all"
      "n' = n'' \<or> ext = [] \<and> n' = ?n"
    using urgencyRepair_shape [OF u] by blast
  have dI: "distinct (?old @ map match_id ?rem)"
    and sI: "set (?old @ map match_id ?rem) \<subseteq> uuid ` {..<?n}"
    using I by (simp_all add: idsInv_def)
  have drem: "distinct (map match_id ?rem)" using dI by simp
  then have "distinct ?rem" by (simp add: distinct_map)
  then have dsel: "distinct ?sel" by (rule selectedOf_facts(4))
  have selsub: "set ?sel \<subseteq> set ?rem" by (rule selectedOf_facts(2))
  have injrem: "inj_on match_id (set ?rem)" using drem by (simp add: distinct_map)
  have dselid: "distinct (map match_id ?sel)"
    using dsel injrem selsub by (auto simp: distinct_map intro: inj_on_subset)
  have allids: "?n \<le> n''" "map match_id all = map uuid [?n..<n'']"
    using generateAllMatches_ids [OF sh(2)] by simp_all
  have "distinct (map uuid [?n..<n''])" using inj by (simp add: distinct_map inj_on_def inj_def)
  then have "distinct (map match_id all)" using allids(2) by simp
  moreover have "subseq (map match_id ext) (map match_id all)" using sh(3) by (rule subseq_map)
  ultimately have dext: "distinct (map match_id ext)" using subseq_distinct by blast
  have extsub: "set (map match_id ext) \<subseteq> uuid ` {?n..<n''}"
  proof -
    have "set (map match_id ext) \<subseteq> set (map match_id all)"
      using sh(3) subseq_subset [of ext all] by auto
    also have "\<dots> = uuid ` {?n..<n''}" using allids(2) by simp
    finally show ?thesis .
  qed
  have fresh: "set (map match_id ext) \<inter> uuid ` {..<?n} = {}"
  proof -
    have "uuid ` {?n..<n''} \<inter> uuid ` {..<?n} = {}"
      using inj by (fastforce simp: inj_eq)
    then show ?thesis using extsub by blast
  qed
  have nle: "?n \<le> n'" using sh(4) allids(1) by auto
  have extsub': "set (map match_id ext) \<subseteq> uuid ` {..<n'}"
  proof (cases "ext = []")
    case True
    then show ?thesis by simp
  next
    case False
    then have "n' = n''" using sh(4) by simp
    moreover have "uuid ` {?n..<n''} \<subseteq> uuid ` {..<n''}" by auto
    ultimately show ?thesis using extsub by blast
  qed
  let ?rem' = "filter (\<lambda>m. match_id m \<notin> set (map match_id rm)) ?rem"
  have new_rounds: "allIds (rounds (commitRound players s rm n')) = ?old @ map match_id rm"
    by (simp add: allIds_def)
  have selid: "set (map match_id ?sel) \<subseteq> set (map match_id ?rem)" using selsub by auto
  have remid: "set (map match_id ?rem) \<subseteq> uuid ` {..<?n}" using sI by simp
  have oldid: "set ?old \<subseteq> uuid ` {..<?n}" using sI by simp
  have oldrem: "set ?old \<inter> set (map match_id ?rem) = {}" using dI by simp
  have rem'id: "set (map match_id ?rem') \<subseteq> set (map match_id ?rem)" by auto
  have oldsel: "set ?old \<inter> set (map match_id ?sel) = {}" using oldrem selid by blast
  have oldext: "set ?old \<inter> set (map match_id ext) = {}" using fresh oldid by blast
  have selext: "set (map match_id ?sel) \<inter> set (map match_id ext) = {}"
    using selid remid fresh by blast
  have drm: "distinct (map match_id rm)" using dselid dext selext by (simp add: sh(1))
  have rmid: "set (map match_id rm) = set (map match_id ?sel) \<union> set (map match_id ext)"
    by (simp add: sh(1))
  have oldrm: "set ?old \<inter> set (map match_id rm) = {}" using oldsel oldext rmid by blast
  have drem': "distinct (map match_id ?rem')" using drem by (simp add: distinct_map_filter)
  have oldrem': "set ?old \<inter> set (map match_id ?rem') = {}" using oldrem rem'id by blast
  have rmrem': "set (map match_id rm) \<inter> set (map match_id ?rem') = {}"
  proof -
    have "x \<notin> set (map match_id rm)" if "x \<in> set (map match_id ?rem')" for x
      using that by auto
    then show ?thesis by blast
  qed
  have dold: "distinct ?old" using dI by simp
  have d: "distinct ((?old @ map match_id rm) @ map match_id ?rem')"
    using dold drm drem' oldrm oldrem' rmrem' by (rule distinct_three)
  have mono: "uuid ` {..<?n} \<subseteq> uuid ` {..<n'}" using nle by auto
  have sub: "set ((?old @ map match_id rm) @ map match_id ?rem') \<subseteq> uuid ` {..<n'}"
  proof -
    have "set ?old \<subseteq> uuid ` {..<n'}" using oldid mono by blast
    moreover have "set (map match_id rm) \<subseteq> uuid ` {..<n'}"
      using rmid selid remid mono extsub' by blast
    moreover have "set (map match_id ?rem') \<subseteq> uuid ` {..<n'}" using rem'id remid mono by blast
    ultimately show ?thesis by simp
  qed
  show ?thesis
    unfolding idsInv_def new_rounds using d sub by simp
qed

lemma schedule_ids_distinct:
  assumes "inj uuid"
  shows "distinct (allIds (scheduleOf uuid players courts mt))"
proof -
  have "idsInv uuid (schedulingLoop uuid players courts mt (initialState uuid players mt))"
  proof (rule schedulingLoop_invariant)
    show "idsInv uuid (initialState uuid players mt)" using assms by (rule idsInv_initial)
  next
    fix s s'
    assume I: "idsInv uuid s" and r: "scheduleRound uuid players courts mt s = Some s'"
    from r obtain rm n' where
        "urgencyRepair uuid players courts mt s (selectedOf courts s) = (rm, n')"
        "s' = commitRound players s rm n'"
      by (rule scheduleRound_SomeE)
    then show "idsInv uuid s'" using idsInv_step [OF assms I] by simp
  qed
  then show ?thesis by (simp add: idsInv_def scheduleOf_def)
qed

subsection \<open>Player statistics and the schedule\<close>

lemma lastPlayed_Nil [simp]: "lastPlayed [] p = - 1"
  by (simp add: lastPlayed_def)

lemma lastPlayed_snoc:
  "lastPlayed (rs @ [r]) p = (if playsIn p r then int (length rs) else lastPlayed rs p)"
  by (simp add: lastPlayed_def enumerate_append_eq)

lemma lastPlayed_less: "lastPlayed rs p < int (length rs)"
  by (induction rs rule: rev_induct) (auto simp: lastPlayed_snoc)

lemma map_fst_map_set: "k \<in> fst ` set m \<Longrightarrow> map fst (map_set m k v) = map fst m"
  by (induction m) force+

lemma map_fst_map_set_new: "k \<notin> fst ` set m \<Longrightarrow> map fst (map_set m k v) = map fst m @ [k]"
  by (induction m) auto

lemma map_of_map_set: "map_of (map_set m k v) = (map_of m)(k \<mapsto> v)"
  by (induction m) auto

lemma statsOf_map_set: "statsOf (map_set m k v) p = (if p = k then v else statsOf m p)"
  by (simp add: statsOf_def get_nullish_def map_of_map_set)

lemma updatePlayerStats_aux:
  fixes f :: "PlayerStats \<Rightarrow> bool \<Rightarrow> PlayerStats"
  assumes "distinct ps" and "set ps \<subseteq> fst ` set st"
  shows "map fst (foldl (\<lambda>st player. map_set st player (f (statsOf st player) (player \<in> set playing))) st ps)
           = map fst st
       \<and> (\<forall>p. statsOf (foldl (\<lambda>st player. map_set st player (f (statsOf st player) (player \<in> set playing))) st ps) p
             = (if p \<in> set ps then f (statsOf st p) (p \<in> set playing) else statsOf st p))"
  using assms
proof (induction ps arbitrary: st)
  case Nil
  then show ?case by simp
next
  case (Cons q ps)
  let ?st1 = "map_set st q (f (statsOf st q) (q \<in> set playing))"
  have k: "map fst ?st1 = map fst st" using Cons.prems(2) by (simp add: map_fst_map_set)
  then have sub: "set ps \<subseteq> fst ` set ?st1" using Cons.prems(2) by (metis list.set_map set_subset_Cons subset_trans)
  have d: "distinct ps" and nq: "q \<notin> set ps" using Cons.prems(1) by simp_all
  from Cons.IH [OF d sub] show ?case using k nq by (auto simp: statsOf_map_set)
qed

lemma updatePlayerStats_facts:
  assumes "distinct players" and "map fst stats = players"
  shows "map fst (updatePlayerStats players playing r stats) = players"
    and "p \<in> set players \<Longrightarrow>
           lastPlayedRound (statsOf (updatePlayerStats players playing r stats) p)
             = (if p \<in> set playing then r else lastPlayedRound (statsOf stats p))"
proof -
  let ?f = "\<lambda>(s :: PlayerStats) (b :: bool).
              if b then s\<lparr>playCount := playCount s + 1, lastPlayedRound := r\<rparr>
              else s\<lparr>restCount := restCount s + 1\<rparr>"
  have eq: "updatePlayerStats players playing r stats
        = foldl (\<lambda>st player. map_set st player (?f (statsOf st player) (player \<in> set playing))) stats players"
    by (simp add: updatePlayerStats_def Let_def)
  have sub: "set players \<subseteq> fst ` set stats" using assms(2) by (metis list.set_map subset_refl)
  note a = updatePlayerStats_aux [where f = ?f, OF assms(1) sub, of playing]
  show "map fst (updatePlayerStats players playing r stats) = players"
    using a assms(2) by (simp add: eq)
  show "p \<in> set players \<Longrightarrow>
           lastPlayedRound (statsOf (updatePlayerStats players playing r stats) p)
             = (if p \<in> set playing then r else lastPlayedRound (statsOf stats p))"
    using a by (simp add: eq)
qed

lemma initial_stats_aux:
  "distinct (map fst st @ ps) \<Longrightarrow>
     map fst (foldl (\<lambda>st player. map_set st player v) st ps) = map fst st @ ps
     \<and> (\<forall>p\<in>set ps. statsOf (foldl (\<lambda>st player. map_set st player v) st ps) p = v)"
proof (induction ps arbitrary: st)
  case Nil
  then show ?case by simp
next
  case (Cons q ps)
  have nq: "q \<notin> fst ` set st" using Cons.prems by auto
  then have k: "map fst (map_set st q v) = map fst st @ [q]" by (rule map_fst_map_set_new)
  then have d: "distinct (map fst (map_set st q v) @ ps)" using Cons.prems by simp
  have "statsOf (foldl (\<lambda>st player. map_set st player v) (map_set st q v) ps) q = v"
  proof -
    have "q \<notin> set ps" using Cons.prems by simp
    then have "statsOf (foldl (\<lambda>st player. map_set st player v) st' ps) q = statsOf st' q" for st'
      by (induction ps arbitrary: st') (auto simp: statsOf_map_set)
    then show ?thesis by (simp add: statsOf_map_set)
  qed
  then show ?case using Cons.IH [OF d] k by simp
qed

lemma getMatchPlayers_nonempty: "teamA m \<noteq> [] \<Longrightarrow> getMatchPlayers m \<noteq> []"
  using set_getMatchPlayers [of m] by (metis Un_empty set_empty)

lemma generateTeams_nonempty: "t \<in> set (generateTeams players mt) \<Longrightarrow> t \<noteq> []"
proof (cases mt)
  case Singles
  assume "t \<in> set (generateTeams players mt)"
  then show ?thesis using Singles by (auto simp: generateTeams_def)
next
  case Doubles
  have "t \<in> set (pairsFrom ps) \<Longrightarrow> t \<noteq> []" for ps by (induction ps) auto
  moreover assume "t \<in> set (generateTeams players mt)"
  ultimately show ?thesis using Doubles by (simp add: generateTeams_def)
qed

lemma generateAllMatches_wellformed:
  assumes "generateAllMatches uuid n (generateTeams players mt) = (ms, n')" and "m \<in> set ms"
  shows "getMatchPlayers m \<noteq> [] \<and> set (getMatchPlayers m) \<subseteq> set players"
proof -
  have "teamA m \<in> set (generateTeams players mt)"
    using generateAllMatches_teams [OF assms] by simp
  then have "teamA m \<noteq> []" by (rule generateTeams_nonempty)
  then show ?thesis using generateAllMatches_players [OF assms] getMatchPlayers_nonempty by simp
qed

lemma statsInv_initial:
  assumes "distinct players"
  shows "statsInv players (initialState uuid players mt)"
proof -
  obtain all n where g: "generateAllMatches uuid 0 (generateTeams players mt) = (all, n)"
    by (cases "generateAllMatches uuid 0 (generateTeams players mt)")
  let ?v = "\<lparr>playCount = 0, restCount = 0, lastPlayedRound = - 1\<rparr>"
  have ps: "playerStats (initialState uuid players mt)
              = foldl (\<lambda>st player. map_set st player ?v) [] players"
    by (simp add: initialState_def Let_def split: prod.splits)
  have a: "map fst (foldl (\<lambda>st player. map_set st player ?v) [] players) = players
     \<and> (\<forall>p\<in>set players. statsOf (foldl (\<lambda>st player. map_set st player ?v) [] players) p = ?v)"
    using initial_stats_aux [of "[]" players ?v] assms by simp
  show ?thesis
    unfolding statsInv_def ps using a g generateAllMatches_wellformed [OF g] by simp
qed

subsection \<open>An urgent player plays\<close>

lemma foldl_max_ge: "a \<le> foldl max a xs \<and> (\<forall>x\<in>set xs. x \<le> foldl max a xs)" for a :: int
proof (induction xs arbitrary: a)
  case Nil
  then show ?case by simp
next
  case (Cons y ys)
  have "max a y \<le> foldl max (max a y) ys \<and> (\<forall>x\<in>set ys. x \<le> foldl max (max a y) ys)"
    by (rule Cons.IH)
  then show ?case by auto
qed

lemma foldl_max_mem: "foldl max a xs \<in> insert a (set xs)" for a :: int
proof (induction xs arbitrary: a)
  case Nil
  then show ?case by simp
next
  case (Cons y ys)
  have "foldl max (max a y) ys \<in> insert (max a y) (set ys)" by (rule Cons.IH)
  moreover have "max a y = a \<or> max a y = y" by (simp add: max_def)
  ultimately show ?case by auto
qed

lemma Math_max_ge: "x \<in> set xs \<Longrightarrow> x \<le> Math_max xs"
  using foldl_max_ge by (cases xs) auto

lemma Math_max_mem: "xs \<noteq> [] \<Longrightarrow> Math_max xs \<in> set xs"
  using foldl_max_mem by (cases xs) auto

lemma pack_first:
  assumes "0 < courts" and "\<exists>c\<in>set cs. \<not> sk c"
  shows "\<exists>c\<in>set cs. \<not> sk c \<and> (\<exists>ext. fst (pack courts (\<lambda>sel. sk) mf pf cs ([], [])) = mf c # ext)"
  using assms(2)
proof (induction cs)
  case Nil
  then show ?case by simp
next
  case (Cons c cs)
  show ?case
  proof (cases "sk c")
    case True
    then have "\<exists>c\<in>set cs. \<not> sk c" using Cons.prems by auto
    from Cons.IH [OF this] show ?thesis using True assms(1) by auto
  next
    case False
    obtain ext where "fst (pack courts (\<lambda>sel. sk) mf pf cs ([mf c], set_add_all [] (pf c))) = [mf c] @ ext"
      using pack_shape by blast
    then show ?thesis using False assms(1) by (auto simp: hasConflict_iff)
  qed
qed

lemma selectedOf_critical_first:
  assumes "0 < courts"
    and "\<exists>m\<in>set (remainingMatches s). critical (playerStats s) (roundNumber s) (getMatchPlayers m)"
  shows "\<exists>m\<in>set (remainingMatches s). critical (playerStats s) (roundNumber s) (getMatchPlayers m)
           \<and> (\<exists>ext. selectedOf courts s = m # ext)"
proof -
  let ?cs = "candidatesOf (remainingMatches s) (playerStats s) (teamUsageCount s)
               (teamLastUsedRound s) (roundNumber s)"
  let ?sk = "\<lambda>c. \<not> critical (playerStats s) (roundNumber s) (cand_players c)"
  have ms: "set (map cand_match ?cs) = set (remainingMatches s)" by (rule candidatesOf_matches)
  have cp: "\<forall>c\<in>set ?cs. cand_players c = getMatchPlayers (cand_match c)" by (rule candidatesOf_players)
  obtain m where m: "m \<in> set (remainingMatches s)"
      "critical (playerStats s) (roundNumber s) (getMatchPlayers m)"
    using assms(2) by blast
  have "m \<in> set (map cand_match ?cs)" using m(1) ms by blast
  then obtain c where c: "c \<in> set ?cs" "cand_match c = m" by auto
  then have "\<not> ?sk c" using m(2) cp by simp
  then have "\<exists>c\<in>set ?cs. \<not> ?sk c" using c(1) by blast
  from pack_first [OF assms(1) this, of cand_match cand_players]
  obtain c' ext where c': "c' \<in> set ?cs" "\<not> ?sk c'"
      "fst (pack courts (\<lambda>sel. ?sk) cand_match cand_players ?cs ([], [])) = cand_match c' # ext"
    by blast
  obtain s1 u1 where fp: "firstPass courts (playerStats s) (roundNumber s) ?cs ([], []) = (s1, u1)"
    by (cases "firstPass courts (playerStats s) (roundNumber s) ?cs ([], [])")
  have s1: "s1 = cand_match c' # ext" using c'(3) fp by (simp add: firstPass_pack)
  obtain ext2 where e2: "fst (secondPass courts ?cs (s1, u1)) = s1 @ ext2"
    unfolding secondPass_pack using pack_shape by blast
  have ne: "remainingMatches s \<noteq> []" "courts \<noteq> 0" using m(1) assms(1) by auto
  have "selectedOf courts s = cand_match c' # (ext @ ext2)"
    using ne fp e2 s1 by (simp add: selectedOf_def selectRoundMatches_eq)
  moreover have "cand_match c' \<in> set (map cand_match ?cs)" using c'(1) by simp
  then have "cand_match c' \<in> set (remainingMatches s)" using ms by blast
  moreover have "critical (playerStats s) (roundNumber s) (getMatchPlayers (cand_match c'))"
    using c'(1,2) cp by simp
  ultimately show ?thesis by blast
qed

lemma lastPlayedOr_statsOf:
  "p \<in> set (map fst stats) \<Longrightarrow> lastPlayedOr stats p d = lastPlayedRound (statsOf stats p)"
proof -
  assume "p \<in> set (map fst stats)"
  then obtain v where "map_of stats p = Some v"
    by (metis list.set_map map_of_eq_None_iff not_Some_eq)
  then show ?thesis by (simp add: lastPlayedOr_def statsOf_def get_nullish_def)
qed

text \<open>
  When a round is committed in a state with an urgent player, a player who was urgent in
  that state plays in it.
\<close>

lemma urgent_plays_step:
  assumes inv: "statsInv players s" and c: "1 \<le> courts"
    and ns: "\<not> safetyStop players s"
    and u: "urgencyRepair uuid players courts mt s (selectedOf courts s) = (rm, n')"
    and ex: "\<exists>p\<in>set players. roundNumber s - lastPlayedRound (statsOf (playerStats s) p)
                \<ge> maxConsecutiveRestsOf (length players)"
  shows "\<exists>q\<in>set players. q \<in> set (playingOf rm)
           \<and> roundNumber s - lastPlayedRound (statsOf (playerStats s) q)
                \<ge> maxConsecutiveRestsOf (length players)"
proof -
  let ?st = "playerStats s" and ?r = "roundNumber s"
  let ?T = "maxConsecutiveRestsOf (length players)"
  have keys: "map fst ?st = players" using inv by (simp add: statsInv_def)
  then have len: "length ?st = length players" by (metis length_map)
  have wf: "\<forall>m\<in>set (remainingMatches s). getMatchPlayers m \<noteq> [] \<and> set (getMatchPlayers m) \<subseteq> set players"
    using inv by (simp add: statsInv_def)
  have w: "?r - lastPlayedOr ?st p (- 10) = ?r - lastPlayedRound (statsOf ?st p)" if "p \<in> set players" for p
    using that keys lastPlayedOr_statsOf [of p ?st] by simp
  have "hasUrgentPlayer players ?st ?r" using ex by (simp add: hasUrgentPlayer_iff)
  then have "canScheduleUrgent (remainingMatches s) (urgentPlayers players ?st ?r)"
    using ns by (simp add: safetyStop_def)
  then obtain m p where m: "m \<in> set (remainingMatches s)" "p \<in> set players"
      "?r - lastPlayedRound (statsOf ?st p) \<ge> ?T" "p \<in> set (getMatchPlayers m)"
    by (auto simp: canScheduleUrgent_iff set_urgentPlayers)
  have "?r - lastPlayedOr ?st p (- 10) \<in> set (waits ?st ?r (getMatchPlayers m))"
    using m(4) by (auto simp: waits_def)
  then have "?r - lastPlayedOr ?st p (- 10) \<le> Math_max (waits ?st ?r (getMatchPlayers m))"
    by (rule Math_max_ge)
  then have "critical ?st ?r (getMatchPlayers m)"
    using m(2,3) w by (simp add: critical_def len)
  then have "\<exists>m\<in>set (remainingMatches s). critical ?st ?r (getMatchPlayers m)" using m(1) by blast
  from selectedOf_critical_first [OF _ this, of courts] c
  obtain m' ext where m': "m' \<in> set (remainingMatches s)" "critical ?st ?r (getMatchPlayers m')"
      "selectedOf courts s = m' # ext"
    by auto
  have "waits ?st ?r (getMatchPlayers m') \<noteq> []" using wf m'(1) by (simp add: waits_def)
  then have "Math_max (waits ?st ?r (getMatchPlayers m')) \<in> set (waits ?st ?r (getMatchPlayers m'))"
    by (rule Math_max_mem)
  then obtain q where q: "q \<in> set (getMatchPlayers m')"
      "Math_max (waits ?st ?r (getMatchPlayers m')) = ?r - lastPlayedOr ?st q (- 10)"
    by (auto simp: waits_def)
  have qp: "q \<in> set players" using q(1) wf m'(1) by blast
  have qw: "?r - lastPlayedRound (statsOf ?st q) \<ge> ?T"
    using m'(2) q(2) w [OF qp] by (simp add: critical_def len)
  obtain ext' where "rm = selectedOf courts s @ ext'" using urgencyRepair_shape [OF u] by blast
  then have "m' \<in> set rm" using m'(3) by simp
  then have "q \<in> set (playingOf rm)" using q(1) by (auto simp: set_playingOf)
  then show ?thesis using qp qw by blast
qed

lemma statsInv_step:
  assumes inv: "statsInv players s" and d: "distinct players"
  shows "statsInv players (commitRound players s rm n')"
proof -
  let ?r = "\<lparr>round_id = ''r'' @ string_of_nat (nat (roundNumber s + 1)), matches = rm,
             resting = filter (\<lambda>p. p \<notin> set (playingOf rm)) players, completed = False\<rparr>"
  have keys: "map fst (playerStats s) = players" and rn: "roundNumber s = int (length (rounds s))"
    and lp: "\<forall>p\<in>set players. lastPlayedRound (statsOf (playerStats s) p) = lastPlayed (rounds s) p"
    and wf: "\<forall>m\<in>set (remainingMatches s). getMatchPlayers m \<noteq> [] \<and> set (getMatchPlayers m) \<subseteq> set players"
    using inv by (simp_all add: statsInv_def)
  have "lastPlayedRound (statsOf (playerStats (commitRound players s rm n')) p)
          = lastPlayed (rounds (commitRound players s rm n')) p" if "p \<in> set players" for p
    using updatePlayerStats_facts(2) [OF d keys that, of "playingOf rm" "roundNumber s"] lp that rn
    by (simp add: lastPlayed_snoc playsIn_def)
  then show ?thesis
    unfolding statsInv_def
    using updatePlayerStats_facts(1) [OF d keys] rn wf by simp
qed

lemma urgent_plays:
  assumes d: "distinct players" and c: "1 \<le> courts"
    and i: "i < length (scheduleOf uuid players courts mt)"
    and ex: "\<exists>p\<in>set players. waitAt (scheduleOf uuid players courts mt) i p
                 \<ge> maxConsecutiveRestsOf (length players)"
  shows "\<exists>q\<in>set players. playsIn q (scheduleOf uuid players courts mt ! i)
           \<and> waitAt (scheduleOf uuid players courts mt) i q \<ge> maxConsecutiveRestsOf (length players)"
proof -
  let ?T = "maxConsecutiveRestsOf (length players)"
  let ?Q = "\<lambda>prev r. (\<exists>p\<in>set players. int (length prev) - lastPlayed prev p \<ge> ?T)
               \<longrightarrow> (\<exists>q\<in>set players. playsIn q r \<and> int (length prev) - lastPlayed prev q \<ge> ?T)"
  let ?S = "scheduleOf uuid players courts mt"
  have "\<forall>i < length ?S. ?Q (take i ?S) (?S ! i)"
  proof (rule scheduleOf_rounds [where Inv = "statsInv players" and Q = ?Q])
    show "statsInv players (initialState uuid players mt)" using d by (rule statsInv_initial)
  next
    fix s rm n'
    assume inv: "statsInv players s" and ns: "\<not> safetyStop players s"
      and u: "urgencyRepair uuid players courts mt s (selectedOf courts s) = (rm, n')"
    let ?r = "\<lparr>round_id = ''r'' @ string_of_nat (nat (roundNumber s + 1)), matches = rm,
             resting = filter (\<lambda>p. p \<notin> set (playingOf rm)) players, completed = False\<rparr>"
    have rn: "roundNumber s = int (length (rounds s))"
      and lp: "\<forall>p\<in>set players. lastPlayedRound (statsOf (playerStats s) p) = lastPlayed (rounds s) p"
      using inv by (simp_all add: statsInv_def)
    have "?Q (rounds s) ?r"
    proof
      assume "\<exists>p\<in>set players. int (length (rounds s)) - lastPlayed (rounds s) p \<ge> ?T"
      then have "\<exists>p\<in>set players. roundNumber s - lastPlayedRound (statsOf (playerStats s) p) \<ge> ?T"
        using rn lp by simp
      from urgent_plays_step [OF inv c ns u this]
      show "\<exists>q\<in>set players. playsIn q ?r \<and> int (length (rounds s)) - lastPlayed (rounds s) q \<ge> ?T"
        using rn lp by (simp add: playsIn_def)
    qed
    then show "statsInv players (commitRound players s rm n') \<and> ?Q (rounds s) ?r"
      using statsInv_step [OF inv d] by blast
  qed
  then have "?Q (take i ?S) (?S ! i)" using i by blast
  then show ?thesis using ex i by (simp add: waitAt_def)
qed

subsection \<open>The comparator and the ordering rule\<close>

lemma foldl_add_sum_list: "foldl (+) a xs = a + sum_list xs" for a :: int
  by (induction xs arbitrary: a) auto

lemma foldl_add_sum_list0: "foldl (+) 0 xs = sum_list xs" for xs :: "int list"
  by (simp add: foldl_add_sum_list)

lemma waits_spec:
  assumes "set ps \<subseteq> set (map fst stats)"
  shows "waits stats r ps = map (spec_wait stats r) ps"
  using assms lastPlayedOr_statsOf [of _ stats "- 10"]
  by (auto simp: waits_def spec_wait_def)

lemma restCountOr0_statsOf:
  "p \<in> set (map fst stats) \<Longrightarrow> restCountOr0 stats p = restCount (statsOf stats p)"
proof -
  assume "p \<in> set (map fst stats)"
  then obtain v where "map_of stats p = Some v"
    by (metis list.set_map map_of_eq_None_iff not_Some_eq)
  then show ?thesis by (simp add: restCountOr0_def statsOf_def get_nullish_def)
qed

lemma avgRest_spec:
  assumes "set (getMatchPlayers m) \<subseteq> set (map fst stats)"
  shows "avgRest (makeCandidate stats usage lastUsed r m) = spec_avg_rest stats m"
proof -
  have "foldl (\<lambda>sum p. sum + restCountOr0 stats p) a ps
          = a + sum_list (map (\<lambda>p. restCount (statsOf stats p)) ps)"
    if "set ps \<subseteq> set (map fst stats)" for a ps
    using that by (induction ps arbitrary: a) (auto simp: restCountOr0_statsOf)
  from this [OF assms, of 0] show ?thesis
    by (simp add: makeCandidate_def spec_avg_rest_def Let_def)
qed

lemma get_or_nullish:
  "get_nullish m k d \<noteq> 0 \<or> d = 0 \<Longrightarrow> get_or m k d = get_nullish m k d"
  by (auto simp: get_or_def get_nullish_def split: option.splits)

lemma freshness_spec:
  assumes "get_nullish lastUsed (getTeamKey (teamA m)) (- 10) \<noteq> 0"
    and "get_nullish lastUsed (getTeamKey (teamB m)) (- 10) \<noteq> 0"
  shows "freshnessScore (makeCandidate stats usage lastUsed r m) = spec_freshness usage lastUsed r m"
  using assms
  by (simp add: makeCandidate_def calculateTeamFreshnessScore_def getMatchTeams_def
        spec_freshness_def spec_recency_penalty_def Let_def get_or_nullish)

text \<open>
  Where the players of both matches have statistics and no team of either match was
  last used in round 0, the comparator's sign is the specification's order.
\<close>

lemma codeOrder_spec_order:
  assumes pa: "set (getMatchPlayers a) \<subseteq> set (map fst stats)"
    and pb: "set (getMatchPlayers b) \<subseteq> set (map fst stats)"
    and "get_nullish lastUsed (getTeamKey (teamA a)) (- 10) \<noteq> 0"
    and "get_nullish lastUsed (getTeamKey (teamB a)) (- 10) \<noteq> 0"
    and "get_nullish lastUsed (getTeamKey (teamA b)) (- 10) \<noteq> 0"
    and "get_nullish lastUsed (getTeamKey (teamB b)) (- 10) \<noteq> 0"
  shows "codeOrder stats usage lastUsed r a b = spec_order stats usage lastUsed r a b"
proof -
  have fa: "freshnessScore (makeCandidate stats usage lastUsed r a) = spec_freshness usage lastUsed r a"
    and fb: "freshnessScore (makeCandidate stats usage lastUsed r b) = spec_freshness usage lastUsed r b"
    using assms(3-6) by (simp_all add: freshness_spec)
  have ra: "avgRest (makeCandidate stats usage lastUsed r a) = spec_avg_rest stats a"
    and rb: "avgRest (makeCandidate stats usage lastUsed r b) = spec_avg_rest stats b"
    using pa pb by (simp_all add: avgRest_spec)
  have wa: "waits stats r (getMatchPlayers a) = map (spec_wait stats r) (getMatchPlayers a)"
    and wb: "waits stats r (getMatchPlayers b) = map (spec_wait stats r) (getMatchPlayers b)"
    using pa pb by (simp_all add: waits_spec)
  define maxA where "maxA = Math_max (map (spec_wait stats r) (getMatchPlayers a))"
  define maxB where "maxB = Math_max (map (spec_wait stats r) (getMatchPlayers b))"
  define minA where "minA = Math_min (map (spec_wait stats r) (getMatchPlayers a))"
  define minB where "minB = Math_min (map (spec_wait stats r) (getMatchPlayers b))"
  define sumA where "sumA = sum_list (map (spec_wait stats r) (getMatchPlayers a))"
  define sumB where "sumB = sum_list (map (spec_wait stats r) (getMatchPlayers b))"
  define restA where "restA = spec_avg_rest stats a"
  define restB where "restB = spec_avg_rest stats b"
  define freshA where "freshA = spec_freshness usage lastUsed r a"
  define freshB where "freshB = spec_freshness usage lastUsed r b"
  define T where "T = maxConsecutiveRestsOf (length stats)"
  have code: "compareCandidates stats r (makeCandidate stats usage lastUsed r a)
                (makeCandidate stats usage lastUsed r b)
      = (if (maxA \<ge> T \<or> maxB \<ge> T) \<and> maxB - maxA \<noteq> 0 then (maxB - maxA) * 100000
         else if (maxA \<ge> max 1 (T - 1) \<or> maxB \<ge> max 1 (T - 1)) \<and> maxB - maxA \<noteq> 0
         then (maxB - maxA) * 10000
         else if sumA \<noteq> sumB then (sumB - sumA) * 100
         else if \<bar>restB - restA\<bar> > 3 / 10 then (if restB - restA > 0 then 1 else - 1) * 50
         else if minA \<noteq> minB then (minB - minA) * 10
         else freshA - freshB)"
    unfolding compareCandidates_def Let_def cand_players_makeCandidate fa fb ra rb wa wb
      foldl_add_sum_list0
    unfolding maxA_def [symmetric] maxB_def [symmetric] minA_def [symmetric] minB_def [symmetric]
      sumA_def [symmetric] sumB_def [symmetric] restA_def [symmetric] restB_def [symmetric]
      freshA_def [symmetric] freshB_def [symmetric] T_def [symmetric]
    by (rule refl)
  have spec: "spec_order stats usage lastUsed r a b
      = (if (maxA \<ge> T \<or> maxB \<ge> T) \<and> maxA \<noteq> maxB then sgn (maxB - maxA)
         else if (maxA \<ge> max 1 (T - 1) \<or> maxB \<ge> max 1 (T - 1)) \<and> maxA \<noteq> maxB
         then sgn (maxB - maxA)
         else if sumA \<noteq> sumB then sgn (sumB - sumA)
         else if \<bar>restB - restA\<bar> > 3 / 10 then (if restB > restA then 1 else - 1)
         else if minA \<noteq> minB then sgn (minB - minA)
         else sgn (freshA - freshB))"
    unfolding spec_order_def Let_def spec_max_wait_def spec_min_wait_def spec_sum_wait_def
    unfolding maxA_def [symmetric] maxB_def [symmetric] minA_def [symmetric] minB_def [symmetric]
      sumA_def [symmetric] sumB_def [symmetric] restA_def [symmetric] restB_def [symmetric]
      freshA_def [symmetric] freshB_def [symmetric] T_def [symmetric]
    by (rule refl)
  show ?thesis
    unfolding codeOrder_def code spec by (auto simp: sgn_if)
qed

subsection \<open>Runs on one court with a rest limit of one round\<close>

lemma schedulingLoop_exit:
  "remainingMatches (schedulingLoop uuid players courts mt s) = []
   \<or> \<not> roundNumber (schedulingLoop uuid players courts mt s) < maxIterations
   \<or> scheduleRound uuid players courts mt (schedulingLoop uuid players courts mt s) = None"
proof (induction uuid players courts mt s rule: schedulingLoop.induct)
  case (1 uuid players courts mt s)
  show ?case
  proof (cases "remainingMatches s \<noteq> [] \<and> roundNumber s < maxIterations")
    case False
    then have "schedulingLoop uuid players courts mt s = s" by (subst schedulingLoop.simps) auto
    then show ?thesis using False by auto
  next
    case guard: True
    show ?thesis
    proof (cases "scheduleRound uuid players courts mt s")
      case None
      then have "schedulingLoop uuid players courts mt s = s" using guard
        by (subst schedulingLoop.simps) auto
      then show ?thesis using None by simp
    next
      case (Some s')
      have "schedulingLoop uuid players courts mt s = schedulingLoop uuid players courts mt s'"
        using guard Some by (subst schedulingLoop.simps) auto
      then show ?thesis using "1.IH" [OF guard Some] by simp
    qed
  qed
qed

text \<open>With \<open>maxConsecutiveRests = 1\<close> every player is urgent in every round.\<close>

lemma one_court_round:
  assumes inv: "statsInv players s" and T: "length players \<le> 7"
    and ne: "remainingMatches s \<noteq> []"
  shows "\<exists>m\<in>set (remainingMatches s).
           urgencyRepair uuid players 1 mt s (selectedOf 1 s) = ([m], uuidCalls s)
           \<and> scheduleRound uuid players 1 mt s = Some (commitRound players s [m] (uuidCalls s))"
proof -
  let ?st = "playerStats s" and ?r = "roundNumber s"
  have keys: "map fst ?st = players" and rn: "?r = int (length (rounds s))"
    and lp: "\<forall>p\<in>set players. lastPlayedRound (statsOf ?st p) = lastPlayed (rounds s) p"
    and wf: "\<forall>m\<in>set (remainingMatches s). getMatchPlayers m \<noteq> [] \<and> set (getMatchPlayers m) \<subseteq> set players"
    using inv by (simp_all add: statsInv_def)
  have len: "length ?st = length players" using keys by (metis length_map)
  have T1: "maxConsecutiveRestsOf (length players) = 1" using T by (simp add: maxConsecutiveRestsOf_def)
  have urgent: "?r - lastPlayedRound (statsOf ?st p) \<ge> 1" if "p \<in> set players" for p
    using lp that rn lastPlayed_less [of "rounds s" p] by simp
  have crit: "critical ?st ?r (getMatchPlayers m)" if "m \<in> set (remainingMatches s)" for m
  proof -
    have "getMatchPlayers m \<noteq> []" using wf that by blast
    then obtain p where p: "p \<in> set (getMatchPlayers m)" by (cases "getMatchPlayers m") auto
    then have pp: "p \<in> set players" using wf that by blast
    have "?r - lastPlayedOr ?st p (- 10) \<in> set (waits ?st ?r (getMatchPlayers m))"
      using p by (auto simp: waits_def)
    then have "?r - lastPlayedOr ?st p (- 10) \<le> Math_max (waits ?st ?r (getMatchPlayers m))"
      by (rule Math_max_ge)
    moreover have "lastPlayedOr ?st p (- 10) = lastPlayedRound (statsOf ?st p)"
      using lastPlayedOr_statsOf [of p ?st] pp keys by simp
    ultimately show ?thesis using urgent [OF pp] by (simp add: critical_def len T1)
  qed
  obtain m0 where m0: "m0 \<in> set (remainingMatches s)" using ne by (cases "remainingMatches s") auto
  have "getMatchPlayers m0 \<noteq> []" using wf m0 by blast
  then obtain p0 where "p0 \<in> set (getMatchPlayers m0)" by (cases "getMatchPlayers m0") auto
  then have p0: "p0 \<in> set (getMatchPlayers m0)" "p0 \<in> set players" using wf m0 by auto
  have ns: "\<not> safetyStop players s"
    using m0 p0 urgent [OF p0(2)]
    by (auto simp: safetyStop_def canScheduleUrgent_iff set_urgentPlayers T1)
  have "\<exists>m\<in>set (remainingMatches s). critical ?st ?r (getMatchPlayers m)" using m0 crit by blast
  from selectedOf_critical_first [OF _ this, of 1]
  obtain m ext where m: "m \<in> set (remainingMatches s)" "selectedOf 1 s = m # ext" by auto
  have "of_nat (length (selectedOf 1 s)) < (1 :: rat) + 1" by (rule selectedOf_facts) simp
  then have "ext = []" using m(2) by simp
  then have sel: "selectedOf 1 s = [m]" using m(2) by simp
  have u: "urgencyRepair uuid players 1 mt s [m] = ([m], uuidCalls s)"
    by (simp add: urgencyRepair_def Let_def)
  then have "scheduleRound uuid players 1 mt s = Some (commitRound players s [m] (uuidCalls s))"
    using ns sel by (simp add: scheduleRound_def selectedOf_def Let_def)
  then show ?thesis using m(1) u sel by auto
qed

lemma poolInv_step:
  assumes J: "poolInv players uuid pool s" and d: "distinct players" and inj: "inj uuid"
    and m: "m \<in> set (remainingMatches s)"
    and u: "urgencyRepair uuid players 1 mt s (selectedOf 1 s) = ([m], uuidCalls s)"
  shows "poolInv players uuid pool (commitRound players s [m] (uuidCalls s))"
proof -
  let ?s' = "commitRound players s [m] (uuidCalls s)"
  have inv: "statsInv players s" and I: "idsInv uuid s"
    and cover: "set (concat (map matches (rounds s))) \<union> set (remainingMatches s) = set pool"
    and one: "\<forall>r\<in>set (rounds s). \<exists>m. matches r = [m]
            \<and> resting r = filter (\<lambda>p. p \<notin> set (getMatchPlayers m)) players"
    using J by (simp_all add: poolInv_def)
  have a: "statsInv players ?s'" using inv d by (rule statsInv_step)
  have b: "idsInv uuid ?s'" using inj I u by (rule idsInv_step)
  have "distinct (map match_id (remainingMatches s))" using I by (simp add: idsInv_def)
  then have io: "inj_on match_id (set (remainingMatches s))" by (simp add: distinct_map)
  have "set (remainingMatches ?s') = set (remainingMatches s) - {m}"
    using io m by (auto simp: inj_on_def)
  then have c: "set (concat (map matches (rounds ?s'))) \<union> set (remainingMatches ?s') = set pool"
    using cover m by auto
  have e: "\<forall>r\<in>set (rounds ?s'). \<exists>m. matches r = [m]
            \<and> resting r = filter (\<lambda>p. p \<notin> set (getMatchPlayers m)) players"
    using one by (auto simp: set_playingOf)
  show ?thesis unfolding poolInv_def using a b c e by blast
qed

lemma length_concat_singletons:
  "\<forall>r\<in>set rs. \<exists>m. f r = [m] \<Longrightarrow> length (concat (map f rs)) = length rs"
  by (induction rs) auto

lemma one_court_schedule:
  assumes d: "distinct players" and T: "length players \<le> 7" and inj: "inj uuid"
    and pool: "generateAllMatches uuid 0 (generateTeams players mt) = (pool, n)"
    and small: "length pool < 1000"
  shows "distinct (concat (map matches (scheduleOf uuid players 1 mt)))"
    and "set (concat (map matches (scheduleOf uuid players 1 mt))) = set pool"
    and "\<forall>r\<in>set (scheduleOf uuid players 1 mt). \<exists>m. matches r = [m]
            \<and> resting r = filter (\<lambda>p. p \<notin> set (getMatchPlayers m)) players"
proof -
  let ?f = "schedulingLoop uuid players 1 mt (initialState uuid players mt)"
  have "poolInv players uuid pool (initialState uuid players mt)"
    unfolding poolInv_def using statsInv_initial [OF d] idsInv_initial [OF inj] pool by simp
  then have J: "poolInv players uuid pool ?f"
  proof (rule schedulingLoop_invariant)
    fix s s'
    assume Js: "poolInv players uuid pool s" and ne: "remainingMatches s \<noteq> []"
      and r: "scheduleRound uuid players 1 mt s = Some s'"
    have "statsInv players s" using Js by (simp add: poolInv_def)
    from one_court_round [OF this T ne, of uuid mt] obtain m where m: "m \<in> set (remainingMatches s)"
        "urgencyRepair uuid players 1 mt s (selectedOf 1 s) = ([m], uuidCalls s)"
        "scheduleRound uuid players 1 mt s = Some (commitRound players s [m] (uuidCalls s))"
      by blast
    then have "s' = commitRound players s [m] (uuidCalls s)" using r by simp
    then show "poolInv players uuid pool s'" using poolInv_step [OF Js d inj m(1,2)] by simp
  qed
  then have inv: "statsInv players ?f" and I: "idsInv uuid ?f"
    and cover: "set (concat (map matches (rounds ?f))) \<union> set (remainingMatches ?f) = set pool"
    and one: "\<forall>r\<in>set (rounds ?f). \<exists>m. matches r = [m]
            \<and> resting r = filter (\<lambda>p. p \<notin> set (getMatchPlayers m)) players"
    by (simp_all add: poolInv_def)
  have "distinct (map match_id (concat (map matches (rounds ?f))))"
    using I by (simp add: idsInv_def allIds_def)
  then have dc: "distinct (concat (map matches (rounds ?f)))" by (simp add: distinct_map)
  have "\<forall>r\<in>set (rounds ?f). \<exists>m. matches r = [m]" using one by blast
  then have "length (concat (map matches (rounds ?f))) = length (rounds ?f)"
    by (rule length_concat_singletons)
  then have "length (rounds ?f) = length (concat (map matches (rounds ?f)))" by (rule sym)
  also have "\<dots> = card (set (concat (map matches (rounds ?f))))" by (rule distinct_card [OF dc, symmetric])
  also have "\<dots> \<le> card (set pool)" using cover by (intro card_mono) auto
  also have "\<dots> \<le> length pool" by (rule card_length)
  finally have "length (rounds ?f) < 1000" using small by simp
  then have rn: "roundNumber ?f < maxIterations" using inv by (simp add: statsInv_def maxIterations_def)
  have "remainingMatches ?f = []"
  proof (rule ccontr)
    assume ne: "remainingMatches ?f \<noteq> []"
    from one_court_round [OF inv T ne, of uuid mt] have "scheduleRound uuid players 1 mt ?f \<noteq> None" by auto
    then show False using schedulingLoop_exit [of uuid players 1 mt "initialState uuid players mt"] ne rn
      by simp
  qed
  then have "set (concat (map matches (rounds ?f))) = set pool" using cover by simp
  then show "distinct (concat (map matches (scheduleOf uuid players 1 mt)))"
    and "set (concat (map matches (scheduleOf uuid players 1 mt))) = set pool"
    and "\<forall>r\<in>set (scheduleOf uuid players 1 mt). \<exists>m. matches r = [m]
            \<and> resting r = filter (\<lambda>p. p \<notin> set (getMatchPlayers m)) players"
    using dc one by (simp_all add: scheduleOf_def)
qed


lemma length_filter_same_set:
  assumes "distinct xs" and "distinct ys" and "set xs = set ys"
  shows "length (filter P xs) = length (filter P ys)"
proof -
  have dx: "distinct (filter P xs)" and dy: "distinct (filter P ys)" using assms(1,2) by simp_all
  have "card (set (filter P xs)) = length (filter P xs)" using dx by (rule distinct_card)
  moreover have "card (set (filter P ys)) = length (filter P ys)" using dy by (rule distinct_card)
  moreover have "set (filter P xs) = set (filter P ys)" using assms(3) by simp
  ultimately show ?thesis by simp
qed

lemma generateAllMatches_five:
  assumes "distinct [a, b, c, d, e]"
  shows "generateAllMatches uuid 0 (generateTeams [a, b, c, d, e] Singles)
           = (five_pool uuid [a, b, c, d, e], 10)"
  using assms
  by (auto simp: generateAllMatches_def generateTeams_def teamsOverlap_def five_pool_def
        eval_nat_numeral)


lemma five_pool_facts:
  assumes d: "distinct [a, b, c, d, e]"
  shows "distinct (five_pool uuid [a, b, c, d, e])"
    and "length (five_pool uuid [a, b, c, d, e]) = 10"
    and "\<forall>m\<in>set (five_pool uuid [a, b, c, d, e]).
           length (playingOf [m]) = 2
           \<and> length (filter (\<lambda>p. p \<notin> set (getMatchPlayers m)) [a, b, c, d, e]) = 3"
    and "list_all (\<lambda>p. list_all (\<lambda>q. p = q
           \<or> length (filter (\<lambda>m. set (getMatchPlayers m) = {p, q}) (five_pool uuid [a, b, c, d, e])) = 1)
             [a, b, c, d, e]) [a, b, c, d, e]"
proof -
  have ne: "a \<noteq> b" "a \<noteq> c" "a \<noteq> d" "a \<noteq> e" "b \<noteq> c" "b \<noteq> d" "b \<noteq> e"
      "c \<noteq> d" "c \<noteq> e" "d \<noteq> e"
      "b \<noteq> a" "c \<noteq> a" "d \<noteq> a" "e \<noteq> a" "c \<noteq> b" "d \<noteq> b" "e \<noteq> b"
      "d \<noteq> c" "e \<noteq> c" "e \<noteq> d"
    using d by auto
  show "distinct (five_pool uuid [a, b, c, d, e])"
    by (simp add: five_pool_def ne)
  show "length (five_pool uuid [a, b, c, d, e]) = 10" by (simp add: five_pool_def)
  show "\<forall>m\<in>set (five_pool uuid [a, b, c, d, e]).
           length (playingOf [m]) = 2
           \<and> length (filter (\<lambda>p. p \<notin> set (getMatchPlayers m)) [a, b, c, d, e]) = 3"
    by (simp add: five_pool_def playingOf_def getMatchPlayers_def new_Set_def ne)
  show "list_all (\<lambda>p. list_all (\<lambda>q. p = q
           \<or> length (filter (\<lambda>m. set (getMatchPlayers m) = {p, q}) (five_pool uuid [a, b, c, d, e])) = 1)
             [a, b, c, d, e]) [a, b, c, d, e]"
    by (simp add: five_pool_def getMatchPlayers_def new_Set_def doubleton_eq_iff ne)
qed

section \<open>The claims\<close>

text \<open>
  C2. Players are non-empty identifiers, so the player list holds no empty name.
  \<open>generateSchedule\<close> deduplicates such a list keeping first occurrences, and fails
  with a validation error exactly when fewer than 5 unique non-empty players remain
  after the deduplication or \<open>courts < 1\<close>: a failure is a value \<open>Inl e\<close>, which
  carries no rounds, and in every other case the result is the schedule built for the
  deduplicated roster.
\<close>

theorem generateSchedule_validation:
  "'''' \<notin> set inputPlayers \<Longrightarrow>
   new_Set inputPlayers = dedupFirst inputPlayers \<and>
   (case generateSchedule uuid inputPlayers courts mt of
      Inl e \<Rightarrow> length (filter (\<lambda>p. p \<noteq> '''') (dedupFirst inputPlayers)) < 5 \<or> courts < 1
    | Inr res \<Rightarrow> 5 \<le> length (filter (\<lambda>p. p \<noteq> '''') (dedupFirst inputPlayers)) \<and> 1 \<le> courts
        \<and> fst res = scheduleOf uuid (dedupFirst inputPlayers) courts mt)"
proof -
  assume ne: "'''' \<notin> set inputPlayers"
  have "set (dedupFirst inputPlayers) = set inputPlayers"
    using set_new_Set [of inputPlayers] by (simp add: new_Set_dedupFirst)
  then have f: "filter (\<lambda>p. p \<noteq> '''') (dedupFirst inputPlayers) = dedupFirst inputPlayers"
    using ne by (auto simp: filter_id_conv)
  show ?thesis
  proof (cases "length (new_Set inputPlayers) < 5 \<or> courts < 1")
    case True
    then obtain e where "generateSchedule uuid inputPlayers courts mt = Inl e"
      using generateSchedule_Inl by blast
    then show ?thesis using True by (simp add: new_Set_dedupFirst f)
  next
    case False
    then have "5 \<le> length (new_Set inputPlayers)" "1 \<le> courts" by simp_all
    from generateSchedule_Inr [OF this] show ?thesis using False
      by (simp add: new_Set_dedupFirst f)
  qed
qed

text \<open>
  The input of scenario S7 holds no empty name and is rejected; the roster it is judged
  on is A, B, C.
\<close>

theorem generateSchedule_validation_witness:
  "'''' \<notin> set [''A'', ''A'', ''B'', ''B'', ''C'', ''C'']
   \<and> (case generateSchedule uuid0 [''A'', ''A'', ''B'', ''B'', ''C'', ''C''] 1 Singles of
      Inl e \<Rightarrow> True | Inr res \<Rightarrow> False)
   \<and> dedupFirst [''A'', ''A'', ''B'', ''B'', ''C'', ''C''] = [''A'', ''B'', ''C'']"
proof -
  have ne: "'''' \<notin> set [''A'', ''A'', ''B'', ''B'', ''C'', ''C'']" by simp
  show ?thesis
    using ne generateSchedule_validation
      [OF ne, where uuid = uuid0 and courts = 1 and mt = Singles]
    by (auto split: sum.splits)
qed

text \<open>
  C9. \<open>generateSchedule\<close> terminates on every input that passes validation (the
  scheduling loop is a total function: each pass increases \<open>roundNumber\<close>, which is
  capped by \<open>maxIterations\<close>), and the schedule it returns has at most 1000 rounds.
\<close>

theorem generateSchedule_returns_within_cap:
  "5 \<le> length (new_Set inputPlayers) \<Longrightarrow> 1 \<le> courts \<Longrightarrow>
     \<exists>rs w. generateSchedule uuid inputPlayers courts mt = Inr (rs, w) \<and> length rs \<le> 1000"
  using generateSchedule_Inr [of inputPlayers courts uuid mt] rounds_bounded by simp

text \<open>Scenario S1 passes validation.\<close>

theorem generateSchedule_returns_within_cap_witness:
  "5 \<le> length (new_Set S1_players) \<and> (1 :: rat) \<le> 1 \<and>
   (\<exists>rs w. generateSchedule uuid0 S1_players 1 Singles = Inr (rs, w) \<and> length rs \<le> 1000)"
proof -
  have a: "5 \<le> length (new_Set S1_players)" by (simp add: S1_players_def new_Set_def)
  have b: "(1 :: rat) \<le> 1" by simp
  show ?thesis using a generateSchedule_returns_within_cap [OF a b] by simp
qed




text \<open>
  C3. In every round of a returned schedule any two matches at different positions of the
  round have no player in common; matches added by the repair block are included.
\<close>

theorem round_matches_disjoint:
  "generateSchedule uuid inputPlayers courts mt = Inr (rs, w) \<Longrightarrow> r \<in> set rs \<Longrightarrow>
     i < j \<Longrightarrow> j < length (matches r) \<Longrightarrow>
     set (getMatchPlayers (matches r ! i)) \<inter> set (getMatchPlayers (matches r ! j)) = {}"
  using generateSchedule_InrD(3) [of uuid inputPlayers courts mt rs w]
    round_disjoint [of r uuid "new_Set inputPlayers" courts mt]
    disjointMatches_nth [of "matches r" i j]
  by simp

text \<open>The match from the pool and the repair match of the six-player run's last round.\<close>

theorem round_matches_disjoint_witness:
  "generateSchedule uuid0 S6_players 2 Singles = Inr (S6_rounds, None)
   \<and> S6_rounds ! 7 \<in> set S6_rounds \<and> (0 :: nat) < 1 \<and> 1 < length (matches (S6_rounds ! 7))
   \<and> matches (S6_rounds ! 7) ! 0 = single 12 ''D'' ''E''
   \<and> matches (S6_rounds ! 7) ! 1 = single 15 ''A'' ''B''
   \<and> set (getMatchPlayers (matches (S6_rounds ! 7) ! 0))
       \<inter> set (getMatchPlayers (matches (S6_rounds ! 7) ! 1)) = {}"
proof -
  have m: "S6_rounds ! 7 \<in> set S6_rounds" by (simp add: S6_rounds_def)
  have ms: "matches (S6_rounds ! 7) = [single 12 ''D'' ''E'', single 15 ''A'' ''B'']"
    by (simp add: S6_rounds_def mkRound_def)
  have l: "1 < length (matches (S6_rounds ! 7))" by (simp add: ms)
  have z: "(0 :: nat) < 1" by simp
  show ?thesis using S6_schedule m l round_matches_disjoint [OF S6_schedule m z l] by (simp add: ms)
qed

text \<open>
  C4. In every round of a returned schedule the resting list and the players of the
  round's matches are disjoint and together are exactly the deduplicated roster.
\<close>

theorem round_partitions_roster:
  "generateSchedule uuid inputPlayers courts mt = Inr (rs, w) \<Longrightarrow> r \<in> set rs \<Longrightarrow>
     set (resting r) \<inter> (\<Union>m\<in>set (matches r). set (getMatchPlayers m)) = {}
     \<and> set (resting r) \<union> (\<Union>m\<in>set (matches r). set (getMatchPlayers m))
         = set (dedupFirst inputPlayers)
     \<and> distinct (resting r)"
proof -
  assume g: "generateSchedule uuid inputPlayers courts mt = Inr (rs, w)" and r: "r \<in> set rs"
  have "r \<in> set (scheduleOf uuid (new_Set inputPlayers) courts mt)"
    using generateSchedule_InrD(3) [OF g] r by simp
  from round_partition [OF this distinct_new_Set] show ?thesis
    by (simp add: new_Set_dedupFirst set_new_Set)
qed

text \<open>The last round of the six-player run: C and F rest, the other four play.\<close>

theorem round_partitions_roster_witness:
  "generateSchedule uuid0 S6_players 2 Singles = Inr (S6_rounds, None)
   \<and> S6_rounds ! 7 \<in> set S6_rounds
   \<and> resting (S6_rounds ! 7) = [''C'', ''F'']
   \<and> set (resting (S6_rounds ! 7)) \<inter> (\<Union>m\<in>set (matches (S6_rounds ! 7)). set (getMatchPlayers m)) = {}
   \<and> set (resting (S6_rounds ! 7)) \<union> (\<Union>m\<in>set (matches (S6_rounds ! 7)). set (getMatchPlayers m))
        = set (dedupFirst S6_players)"
proof -
  have m: "S6_rounds ! 7 \<in> set S6_rounds" by (simp add: S6_rounds_def)
  have "resting (S6_rounds ! 7) = [''C'', ''F'']" by (simp add: S6_rounds_def mkRound_def)
  then show ?thesis using S6_schedule m round_partitions_roster [OF S6_schedule m] by simp
qed

text \<open>
  C7. If at the top of a pass through the scheduling loop some roster player is urgent
  (round index minus \<open>lastPlayedRound\<close> is at least \<open>maxConsecutiveRests\<close>) and no
  match of the remaining pool contains an urgent player, the loop ends there: the final
  state is that state, so no further round is appended.
\<close>

theorem safety_gate_ends_scheduling:
  assumes "\<exists>p\<in>set players.
             roundNumber s - lastPlayedRound (statsOf (playerStats s) p)
               \<ge> maxConsecutiveRestsOf (length players)"
    and "\<forall>m\<in>set (remainingMatches s). \<forall>p\<in>set players.
           roundNumber s - lastPlayedRound (statsOf (playerStats s) p)
               \<ge> maxConsecutiveRestsOf (length players)
           \<longrightarrow> p \<notin> set (getMatchPlayers m)"
  shows "schedulingLoop uuid players courts mt s = s"
proof -
  have "hasUrgentPlayer players (playerStats s) (roundNumber s)"
    using assms(1) by (simp add: hasUrgentPlayer_iff)
  moreover have "\<not> canScheduleUrgent (remainingMatches s)
                     (urgentPlayers players (playerStats s) (roundNumber s))"
    using assms(2) by (auto simp: canScheduleUrgent_iff set_urgentPlayers)
  ultimately have "safetyStop players s" by (simp add: safetyStop_def)
  then show ?thesis by (rule schedulingLoop_safetyStop)
qed

text \<open>
  In \<open>gate_state\<close> the loop condition holds (a match remains, round 2 of 1000), C is
  urgent, and the loop returns the state unchanged.
\<close>

theorem safety_gate_ends_scheduling_witness:
  "remainingMatches gate_state \<noteq> [] \<and> roundNumber gate_state < maxIterations
   \<and> 2 - lastPlayedRound (statsOf (playerStats gate_state) ''C'') \<ge> maxConsecutiveRestsOf (length gate_players)
   \<and> schedulingLoop uuid0 gate_players 2 Singles gate_state = gate_state"
proof -
  have st: "map (\<lambda>p. lastPlayedRound (statsOf (playerStats gate_state) p)) gate_players
              = [1, 1, 0, 0, - 1, - 1, - 1, - 1]"
    by (simp add: gate_state_def gate_players_def statsOf_def get_nullish_def)
  have ps: "set (getMatchPlayers (single 0 ''A'' ''B'')) = {''A'', ''B''}"
    by (simp add: getMatchPlayers_def single_def new_Set_def)
  have T: "maxConsecutiveRestsOf (length gate_players) = 2"
    by (simp add: gate_players_def maxConsecutiveRestsOf_def)
  have r: "remainingMatches gate_state = [single 0 ''A'' ''B'']" "roundNumber gate_state = 2"
    by (simp_all add: gate_state_def)
  have a: "\<exists>p\<in>set gate_players.
             roundNumber gate_state - lastPlayedRound (statsOf (playerStats gate_state) p)
               \<ge> maxConsecutiveRestsOf (length gate_players)"
    using st unfolding T r by (simp add: gate_players_def)
  have b: "\<forall>m\<in>set (remainingMatches gate_state). \<forall>p\<in>set gate_players.
           roundNumber gate_state - lastPlayedRound (statsOf (playerStats gate_state) p)
               \<ge> maxConsecutiveRestsOf (length gate_players)
           \<longrightarrow> p \<notin> set (getMatchPlayers m)"
    using st unfolding T r by (simp add: ps gate_players_def)
  show ?thesis
    using safety_gate_ends_scheduling [OF a b, of uuid0 2 Singles] st
    unfolding T r by (simp add: maxIterations_def gate_players_def)
qed

text \<open>
  C5. With an id generator that never returns the same id twice (\<open>inj uuid\<close>), the
  match ids of a returned schedule are pairwise distinct across all rounds. The repair
  block enumerates all matches anew, so a match it inserts carries a fresh id even when
  its teams repeat an earlier match.
\<close>

theorem match_ids_distinct:
  "inj uuid \<Longrightarrow> generateSchedule uuid inputPlayers courts mt = Inr (rs, w) \<Longrightarrow>
     distinct (map match_id (concat (map matches rs)))"
  using schedule_ids_distinct [of uuid "new_Set inputPlayers" courts mt]
    generateSchedule_InrD(3) [of uuid inputPlayers courts mt rs w]
  by (simp add: allIds_def)

text \<open>
  In the six-player run the repair block adds A against B to the last round, the pairing
  of the first match of the first round, under a different id.
\<close>

theorem match_ids_distinct_witness:
  "inj uuid0 \<and> generateSchedule uuid0 S6_players 2 Singles = Inr (S6_rounds, None)
   \<and> matches (S6_rounds ! 0) ! 0 = single 0 ''A'' ''B''
   \<and> matches (S6_rounds ! 7) ! 1 = single 15 ''A'' ''B''
   \<and> match_id (single 0 ''A'' ''B'') \<noteq> match_id (single 15 ''A'' ''B'')
   \<and> distinct (map match_id (concat (map matches S6_rounds)))"
proof -
  have "matches (S6_rounds ! 0) ! 0 = single 0 ''A'' ''B''"
    "matches (S6_rounds ! 7) ! 1 = single 15 ''A'' ''B''"
    by (simp_all add: S6_rounds_def mkRound_def)
  moreover have "match_id (single 0 ''A'' ''B'') \<noteq> match_id (single 15 ''A'' ''B'')"
    by (simp add: single_def uuid0_def)
  ultimately show ?thesis
    using inj_uuid0 S6_schedule match_ids_distinct [OF inj_uuid0 S6_schedule] by simp
qed

text \<open>
  C1 does not hold of the code. On scenario S1 (five players, one court, singles)
  \<open>maxConsecutiveRests\<close> is 1, the schedule returned has ten rounds of one match each,
  and E rests in the first two of them: its longest run of consecutive resting rounds
  is 2. The comments of the source promise the cap (a player at the limit "MUST play
  this round", the first packing pass "ensures we never exceed maxConsecutiveRests"),
  and the safety check and the repair block exist to keep it; they do not: the check
  stops the loop only when no remaining match holds any urgent player, and the packer
  and the repair seat urgent players only while a court is free.
\<close>

theorem rest_cap_exceeded:
  "generateSchedule uuid0 S1_players 1 Singles = Inr (S1_rounds, None)
   \<and> ''E'' \<in> set (resting (S1_rounds ! 0)) \<and> ''E'' \<in> set (resting (S1_rounds ! 1))
   \<and> longestRestRun ''E'' S1_rounds = 2
   \<and> maxConsecutiveRestsOf (length (dedupFirst S1_players)) = 1
   \<and> \<not> int (longestRestRun ''E'' S1_rounds) \<le> maxConsecutiveRestsOf (length (dedupFirst S1_players))"
proof -
  have l: "longestRestRun ''E'' S1_rounds = 2" by code_simp
  have t: "maxConsecutiveRestsOf (length (dedupFirst S1_players)) = 1"
    by (simp add: S1_players_def maxConsecutiveRestsOf_def)
  have r: "''E'' \<in> set (resting (S1_rounds ! 0))" "''E'' \<in> set (resting (S1_rounds ! 1))"
    by (simp_all add: S1_rounds_def mkRound_def)
  show ?thesis using S1_schedule l t r by simp
qed

text \<open>
  The bound 2 of larger rosters is exceeded as well: with eight players on one court,
  singles, C has a run of five resting rounds.
\<close>

lemma rest_run_eight_players_one_court:
  "longestRestRun ''C'' (scheduleOf uuid0 (new_Set S8_players) 1 Singles) = 5"
  by code_simp

lemma rest_cap_exceeded_eight_players:
  "\<exists>rs w. generateSchedule uuid0 S8_players 1 Singles = Inr (rs, w)
     \<and> \<not> int (longestRestRun ''C'' rs) \<le> maxConsecutiveRestsOf (length (dedupFirst S8_players))"
proof -
  have "5 \<le> length (new_Set S8_players)" by (simp add: S8_players_def new_Set_def)
  from generateSchedule_Inr [OF this, of 1 uuid0 Singles] show ?thesis
    using rest_run_eight_players_one_court
    by (simp add: maxConsecutiveRestsOf_def S8_players_def)
qed

text \<open>
  What the safety check and the first packing pass do ensure: whenever, at a round of
  the returned schedule, some roster player is urgent (the round index minus the index
  of the last round they played in, \<open>-1\<close> if none, is at least
  \<open>maxConsecutiveRests\<close>), at least one urgent player plays in that round.
\<close>

lemma urgent_player_is_scheduled:
  assumes "generateSchedule uuid inputPlayers courts mt = Inr (rs, w)"
    and "i < length rs" and "p \<in> set inputPlayers"
    and "waitAt rs i p \<ge> maxConsecutiveRestsOf (length (dedupFirst inputPlayers))"
  shows "\<exists>q\<in>set inputPlayers. playsIn q (rs ! i)
           \<and> waitAt rs i q \<ge> maxConsecutiveRestsOf (length (dedupFirst inputPlayers))"
proof -
  let ?players = "new_Set inputPlayers"
  have rs: "rs = scheduleOf uuid ?players courts mt" and c: "1 \<le> courts"
    using generateSchedule_InrD [OF assms(1)] by simp_all
  have T: "dedupFirst inputPlayers = ?players" by (simp add: new_Set_dedupFirst)
  have i: "i < length (scheduleOf uuid ?players courts mt)" using assms(2) rs by simp
  have "p \<in> set ?players" using assms(3) by (simp add: set_new_Set)
  then have ex: "\<exists>p\<in>set ?players. waitAt (scheduleOf uuid ?players courts mt) i p
              \<ge> maxConsecutiveRestsOf (length ?players)"
    using assms(4) unfolding T rs by blast
  from urgent_plays [OF distinct_new_Set c i ex]
  show ?thesis unfolding T rs by (simp add: set_new_Set)
qed

text \<open>
  Eight players, three courts, singles: G and H rest in the first round, so both are
  urgent at round index 1, and one of the urgent players plays there.
\<close>

lemma urgent_player_is_scheduled_example:
  "generateSchedule uuid0 S8_players 3 Singles = Inr (S8_rounds, None)
   \<and> 1 < length S8_rounds \<and> ''H'' \<in> set S8_players
   \<and> maxConsecutiveRestsOf (length (dedupFirst S8_players)) = 2
   \<and> waitAt S8_rounds 1 ''H'' = 2
   \<and> (\<exists>q\<in>set S8_players. playsIn q (S8_rounds ! 1)
         \<and> waitAt S8_rounds 1 q \<ge> maxConsecutiveRestsOf (length (dedupFirst S8_players)))"
proof -
  have l: "1 < length S8_rounds" by (simp add: S8_rounds_def)
  have h: "''H'' \<in> set S8_players" by (simp add: S8_players_def)
  have t: "maxConsecutiveRestsOf (length (dedupFirst S8_players)) = 2"
    by (simp add: S8_players_def maxConsecutiveRestsOf_def)
  have w: "waitAt S8_rounds 1 ''H'' = 2" by code_simp
  have w': "waitAt S8_rounds 1 ''H'' \<ge> maxConsecutiveRestsOf (length (dedupFirst S8_players))"
    using w t by simp
  show ?thesis
    using S8_schedule l h t w urgent_player_is_scheduled [OF S8_schedule l h w'] by simp
qed

text \<open>
  C8. For five distinct players, one court, singles, \<open>generateSchedule\<close> returns a
  schedule in which every round has exactly one match of two players and three players
  resting; the rounds hold ten matches in all, and every two distinct players meet in
  exactly one of them. The identifiers \<open>uuidv4()\<close> hands out are pairwise distinct.
\<close>

theorem five_players_one_court_singles:
  assumes d: "distinct [a, b, c, d, e]" and inj: "inj uuid"
  shows "\<exists>rs. generateSchedule uuid [a, b, c, d, e] 1 Singles = Inr (rs, None)
     \<and> list_all oneSinglesMatch rs
     \<and> length (concat (map matches rs)) = 10
     \<and> list_all (\<lambda>p. list_all (\<lambda>q. p = q \<or> timesPaired p q rs = 1) [a, b, c, d, e])
          [a, b, c, d, e]"
proof -
  let ?ps = "[a, b, c, d, e]"
  let ?pool = "five_pool uuid ?ps"
  let ?rs = "scheduleOf uuid ?ps 1 Singles"
  have ns: "new_Set ?ps = ?ps" using d by (simp add: new_Set_dedupFirst)
  have g: "generateSchedule uuid ?ps 1 Singles = Inr (?rs, None)"
    using generateSchedule_Inr [of ?ps 1 uuid Singles] by (simp add: ns)
  have pool: "generateAllMatches uuid 0 (generateTeams ?ps Singles) = (?pool, 10)"
    using d by (rule generateAllMatches_five)
  have dp: "distinct ?ps" using d .
  have small: "length ?pool < 1000" using five_pool_facts(2) [OF d] by simp
  have T: "length ?ps \<le> 7" by simp
  note run = one_court_schedule [OF dp T inj pool small]
  have one: "oneSinglesMatch r" if "r \<in> set ?rs" for r
  proof -
    have "\<exists>m. matches r = [m]
            \<and> resting r = filter (\<lambda>p. p \<notin> set (getMatchPlayers m)) ?ps"
      using run(3) that by (rule bspec)
    then obtain m where m: "matches r = [m]"
        "resting r = filter (\<lambda>p. p \<notin> set (getMatchPlayers m)) ?ps"
      by blast
    have "m \<in> set (matches r)" using m(1) by simp
    then have "m \<in> set (concat (map matches ?rs))" using that by auto
    then have mp: "m \<in> set ?pool" unfolding run(2) .
    have "length (playingOf [m]) = 2
           \<and> length (filter (\<lambda>p. p \<notin> set (getMatchPlayers m)) ?ps) = 3"
      using five_pool_facts(3) [OF d] mp by (rule bspec)
    then show ?thesis using m by (simp add: oneSinglesMatch_def)
  qed
  have a: "list_all oneSinglesMatch ?rs" using one by (simp add: list_all_iff)
  have "card (set (concat (map matches ?rs))) = length (concat (map matches ?rs))"
    using run(1) by (rule distinct_card)
  moreover have "card (set ?pool) = length ?pool"
    using five_pool_facts(1) [OF d] by (rule distinct_card)
  ultimately have "length (concat (map matches ?rs)) = length ?pool"
    using run(2) by simp
  then have b: "length (concat (map matches ?rs)) = 10" using five_pool_facts(2) [OF d] by simp
  have "timesPaired p q ?rs = length (filter (\<lambda>m. set (getMatchPlayers m) = {p, q}) ?pool)" for p q
    unfolding timesPaired_def
    using run(1) five_pool_facts(1) [OF d] run(2) by (rule length_filter_same_set)
  then have c: "list_all (\<lambda>p. list_all (\<lambda>q. p = q \<or> timesPaired p q ?rs = 1) ?ps) ?ps"
    using five_pool_facts(4) [OF d] by simp
  show ?thesis using g a b c by (intro exI [of _ ?rs] conjI)
qed

text \<open>Scenario S1: the players A to E; the schedule is the one evaluated above.\<close>

theorem five_players_one_court_singles_witness:
  "distinct [''A'', ''B'', ''C'', ''D'', ''E''] \<and> inj uuid0
   \<and> generateSchedule uuid0 [''A'', ''B'', ''C'', ''D'', ''E''] 1 Singles = Inr (S1_rounds, None)
   \<and> list_all oneSinglesMatch S1_rounds
   \<and> length (concat (map matches S1_rounds)) = 10
   \<and> list_all (\<lambda>p. list_all (\<lambda>q. p = q \<or> timesPaired p q S1_rounds = 1)
          [''A'', ''B'', ''C'', ''D'', ''E'']) [''A'', ''B'', ''C'', ''D'', ''E'']"
proof -
  have d: "distinct [''A'', ''B'', ''C'', ''D'', ''E'']" by simp
  from five_players_one_court_singles [OF d inj_uuid0]
  obtain rs where rs: "generateSchedule uuid0 [''A'', ''B'', ''C'', ''D'', ''E''] 1 Singles = Inr (rs, None)"
      "list_all oneSinglesMatch rs" "length (concat (map matches rs)) = 10"
      "list_all (\<lambda>p. list_all (\<lambda>q. p = q \<or> timesPaired p q rs = 1)
          [''A'', ''B'', ''C'', ''D'', ''E'']) [''A'', ''B'', ''C'', ''D'', ''E'']"
    by blast
  have "rs = S1_rounds" using rs(1) S1_schedule by (simp add: S1_players_def)
  then show ?thesis using d inj_uuid0 rs by simp
qed

end
